theory Spec2Isabelle
  imports Complex_Main "HOL-Library.Word"
begin

section \<open>Strings and numbers of the host language\<close>

text \<open>
  A string of the source language is a sequence of 16-bit code units. The Note type of
  \<^verbatim>\<open>app.vue\<close> has three string fields and two numeric fields; the numeric fields
  are only ever written from \<^verbatim>\<open>Date.now()\<close>, an integral number of milliseconds,
  so they are modelled as integers.
\<close>

type_synonym jschar = "16 word"
type_synonym jstring = "jschar list"

definition js :: "string \<Rightarrow> jstring" where
  "js cs = map of_char cs"

abbreviation QUOTE :: jschar where "QUOTE \<equiv> 0x22"
abbreviation BACKSLASH :: jschar where "BACKSLASH \<equiv> 0x5C"
abbreviation SLASH :: jschar where "SLASH \<equiv> 0x2F"
abbreviation COMMA :: jschar where "COMMA \<equiv> 0x2C"
abbreviation COLON :: jschar where "COLON \<equiv> 0x3A"
abbreviation LBRACKET :: jschar where "LBRACKET \<equiv> 0x5B"
abbreviation RBRACKET :: jschar where "RBRACKET \<equiv> 0x5D"
abbreviation LBRACE :: jschar where "LBRACE \<equiv> 0x7B"
abbreviation RBRACE :: jschar where "RBRACE \<equiv> 0x7D"
abbreviation MINUS :: jschar where "MINUS \<equiv> 0x2D"
abbreviation PLUS :: jschar where "PLUS \<equiv> 0x2B"
abbreviation DOT :: jschar where "DOT \<equiv> 0x2E"
abbreviation ZERO :: jschar where "ZERO \<equiv> 0x30"

text \<open>
  \<^verbatim>\<open>Number.prototype.toString(radix)\<close> on an integral value: the digits
  \<^verbatim>\<open>0-9a-z\<close>, most significant first, with a leading minus sign for a negative
  value. (Integral values of magnitude below \<open>10^21\<close> print without an exponent.)
\<close>

function to_digits :: "nat \<Rightarrow> nat \<Rightarrow> nat list" where
  "to_digits b n = (if b < 2 \<or> n < b then [n] else to_digits b (n div b) @ [n mod b])"
  by pat_completeness auto
termination
  by (relation "measure (\<lambda>(b, n). n)") auto

declare to_digits.simps [simp del]

definition digit_char :: "nat \<Rightarrow> jschar" where
  "digit_char d = (if d < 10 then of_nat (48 + d) else of_nat (87 + d))"

definition number_toString :: "nat \<Rightarrow> int \<Rightarrow> jstring" where
  "number_toString radix n =
     (if n < 0 then MINUS # map digit_char (to_digits radix (nat (- n)))
      else map digit_char (to_digits radix (nat n)))"


section \<open>The data model\<close>

text \<open>\<^verbatim>\<open>type Note = { id, title, body, created, updated }\<close>\<close>

record Note =
  id_note :: jstring
  title :: jstring
  body :: jstring
  created :: int
  updated :: int

section \<open>JSON.stringify on a Note array\<close>

text \<open>
  \<^verbatim>\<open>QuoteJSONString\<close> of ECMA-262: the string is read by code points, so a
  leading surrogate followed by a trailing one passes through as a pair; a surrogate on
  its own is written as a \<^verbatim>\<open>\uXXXX\<close> escape with lower-case hexadecimal digits,
  and so is a control character that has no single-character escape.
\<close>

definition is_leading :: "jschar \<Rightarrow> bool" where
  "is_leading c \<longleftrightarrow> 0xD800 \<le> c \<and> c \<le> 0xDBFF"

definition is_trailing :: "jschar \<Rightarrow> bool" where
  "is_trailing c \<longleftrightarrow> 0xDC00 \<le> c \<and> c \<le> 0xDFFF"

definition UnicodeEscape :: "jschar \<Rightarrow> jstring" where
  "UnicodeEscape c =
     (let n = unat c in
      [BACKSLASH, 0x75,
       digit_char (n div 4096), digit_char (n div 256 mod 16),
       digit_char (n div 16 mod 16), digit_char (n mod 16)])"

definition quote_unit :: "jschar \<Rightarrow> jstring" where
  "quote_unit c =
     (if c = 0x08 then [BACKSLASH, 0x62]
      else if c = 0x09 then [BACKSLASH, 0x74]
      else if c = 0x0A then [BACKSLASH, 0x6E]
      else if c = 0x0C then [BACKSLASH, 0x66]
      else if c = 0x0D then [BACKSLASH, 0x72]
      else if c = QUOTE then [BACKSLASH, QUOTE]
      else if c = BACKSLASH then [BACKSLASH, BACKSLASH]
      else if c < 0x20 \<or> is_leading c \<or> is_trailing c then UnicodeEscape c
      else [c])"

fun quote_chars :: "jstring \<Rightarrow> jstring" where
  "quote_chars [] = []"
| "quote_chars [c] = quote_unit c"
| "quote_chars (c # d # cs) =
     (if is_leading c \<and> is_trailing d then c # d # quote_chars cs
      else quote_unit c @ quote_chars (d # cs))"

definition QuoteJSONString :: "jstring \<Rightarrow> jstring" where
  "QuoteJSONString s = QUOTE # quote_chars s @ [QUOTE]"

text \<open>
  The object of a note lists its properties in the order in which the object literal of
  \<^verbatim>\<open>createNewNote\<close> creates them; no white space is written. (An object read
  from the store keeps the order of its own keys, which the record of a note does not
  hold; this touches the exact text stored for such a note, not the notes it denotes.)
\<close>

definition stringify_note :: "Note \<Rightarrow> jstring" where
  "stringify_note n =
     js ''{\"id\":'' @ QuoteJSONString (id_note n) @
     js '',\"title\":'' @ QuoteJSONString (title n) @
     js '',\"body\":'' @ QuoteJSONString (body n) @
     js '',\"created\":'' @ number_toString 10 (created n) @
     js '',\"updated\":'' @ number_toString 10 (updated n) @ [RBRACE]"

fun join_comma :: "jstring list \<Rightarrow> jstring" where
  "join_comma [] = []"
| "join_comma [x] = x"
| "join_comma (x # y # xs) = x @ COMMA # join_comma (y # xs)"

definition JSON_stringify :: "Note list \<Rightarrow> jstring" where
  "JSON_stringify ns = LBRACKET # join_comma (map stringify_note ns) @ [RBRACKET]"

section \<open>JSON.parse\<close>

text \<open>
  The JSON grammar of ECMA-262 and ECMA-404 over code units: white space is tab, line
  feed, carriage return and space; a string may not hold an unescaped quote, backslash
  or control character; a number has no leading zero. A number literal denotes its exact
  decimal value (rounding to a double is outside this model). An object keeps its
  members in the order of the text.
\<close>

datatype json =
    JNull
  | JBool bool
  | JNumber rat
  | JString jstring
  | JArray "json list"
  | JObject "(jstring \<times> json) list"

definition is_ws :: "jschar \<Rightarrow> bool" where
  "is_ws c \<longleftrightarrow> c = 0x09 \<or> c = 0x0A \<or> c = 0x0D \<or> c = 0x20"

definition skip_ws :: "jstring \<Rightarrow> jstring" where
  "skip_ws s = dropWhile is_ws s"

definition is_digit :: "jschar \<Rightarrow> bool" where
  "is_digit c \<longleftrightarrow> 0x30 \<le> c \<and> c \<le> 0x39"

definition hex_val :: "jschar \<Rightarrow> nat option" where
  "hex_val c =
     (if 0x30 \<le> c \<and> c \<le> 0x39 then Some (unat c - 48)
      else if 0x61 \<le> c \<and> c \<le> 0x66 then Some (unat c - 87)
      else if 0x41 \<le> c \<and> c \<le> 0x46 then Some (unat c - 55)
      else None)"

definition hex4 :: "jschar \<Rightarrow> jschar \<Rightarrow> jschar \<Rightarrow> jschar \<Rightarrow> jschar option" where
  "hex4 a b c d =
     (case (hex_val a, hex_val b, hex_val c, hex_val d) of
        (Some x, Some y, Some z, Some w) \<Rightarrow> Some (of_nat (((x * 16 + y) * 16 + z) * 16 + w))
      | _ \<Rightarrow> None)"

definition unescape :: "jschar \<Rightarrow> jschar option" where
  "unescape e =
     (if e = QUOTE then Some QUOTE
      else if e = BACKSLASH then Some BACKSLASH
      else if e = SLASH then Some SLASH
      else if e = 0x62 then Some 0x08
      else if e = 0x66 then Some 0x0C
      else if e = 0x6E then Some 0x0A
      else if e = 0x72 then Some 0x0D
      else if e = 0x74 then Some 0x09
      else None)"

fun parse_string :: "jstring \<Rightarrow> (jstring \<times> jstring) option" where
  "parse_string [] = None"
| "parse_string (c # cs) =
     (if c = QUOTE then Some ([], cs)
      else if c < 0x20 then None
      else if c = BACKSLASH then
        (case cs of
           [] \<Rightarrow> None
         | e # es \<Rightarrow>
             if e = 0x75 then
               (case es of
                  h1 # h2 # h3 # h4 # rest \<Rightarrow>
                    (case hex4 h1 h2 h3 h4 of
                       None \<Rightarrow> None
                     | Some u \<Rightarrow> map_option (apfst ((#) u)) (parse_string rest))
                | _ \<Rightarrow> None)
             else
               (case unescape e of
                  None \<Rightarrow> None
                | Some u \<Rightarrow> map_option (apfst ((#) u)) (parse_string es)))
      else map_option (apfst ((#) c)) (parse_string cs))"

declare parse_string.simps(2) [simp del]

definition digits_val :: "jstring \<Rightarrow> nat" where
  "digits_val ds = foldl (\<lambda>a c. 10 * a + (unat c - 48)) 0 ds"

definition number_value :: "bool \<Rightarrow> nat \<Rightarrow> int \<Rightarrow> rat" where
  "number_value neg m e =
     (if neg then - 1 else 1) * of_nat m * (if 0 \<le> e then 10 ^ nat e else 1 / 10 ^ nat (- e))"

definition parse_sign :: "jstring \<Rightarrow> bool \<times> jstring" where
  "parse_sign s = (case s of [] \<Rightarrow> (False, s) | c # r \<Rightarrow> if c = MINUS then (True, r) else (False, s))"

definition parse_int_part :: "jstring \<Rightarrow> (jstring \<times> jstring) option" where
  "parse_int_part s =
     (case s of
        [] \<Rightarrow> None
      | c # r \<Rightarrow>
          if c = ZERO then Some ([c], r)
          else if is_digit c then Some (takeWhile is_digit s, dropWhile is_digit s)
          else None)"

definition parse_frac :: "jstring \<Rightarrow> (jstring \<times> jstring) option" where
  "parse_frac s =
     (case s of
        [] \<Rightarrow> Some ([], s)
      | c # r \<Rightarrow>
          if c = DOT then
            (if takeWhile is_digit r = [] then None
             else Some (takeWhile is_digit r, dropWhile is_digit r))
          else Some ([], s))"

definition parse_exp_sign :: "jstring \<Rightarrow> bool \<times> jstring" where
  "parse_exp_sign s =
     (case s of
        [] \<Rightarrow> (False, s)
      | c # r \<Rightarrow> if c = MINUS then (True, r) else if c = PLUS then (False, r) else (False, s))"

definition parse_exp :: "jstring \<Rightarrow> (int \<times> jstring) option" where
  "parse_exp s =
     (case s of
        [] \<Rightarrow> Some (0, s)
      | c # r \<Rightarrow>
          if c = 0x65 \<or> c = 0x45 then
            (case parse_exp_sign r of
               (neg, r1) \<Rightarrow>
                 if takeWhile is_digit r1 = [] then None
                 else Some ((if neg then - 1 else 1) * int (digits_val (takeWhile is_digit r1)),
                            dropWhile is_digit r1))
          else Some (0, s))"

definition parse_number :: "jstring \<Rightarrow> (rat \<times> jstring) option" where
  "parse_number s =
     (case parse_sign s of
        (neg, s1) \<Rightarrow>
          (case parse_int_part s1 of
             None \<Rightarrow> None
           | Some (ip, s2) \<Rightarrow>
               (case parse_frac s2 of
                  None \<Rightarrow> None
                | Some (fp, s3) \<Rightarrow>
                    (case parse_exp s3 of
                       None \<Rightarrow> None
                     | Some (ex, s4) \<Rightarrow>
                         Some (number_value neg (digits_val (ip @ fp)) (ex - int (length fp)),
                               s4)))))"

definition parse_literal :: "jstring \<Rightarrow> (json \<times> jstring) option" where
  "parse_literal s =
     (if take 4 s = js ''null'' then Some (JNull, drop 4 s)
      else if take 4 s = js ''true'' then Some (JBool True, drop 4 s)
      else if take 5 s = js ''false'' then Some (JBool False, drop 5 s)
      else None)"

text \<open>
  The three mutually recursive parts of the grammar: a value, the elements of an array
  after its opening bracket, the members of an object after its opening brace. Each
  returns what it has read and the rest of the text, or \<open>None\<close> for a syntax error.
  The comparisons of lengths before the calls on a rest of the text make the recursion
  well-founded; the rest is always shorter.
\<close>

function parse_value :: "jstring \<Rightarrow> (json \<times> jstring) option"
  and parse_elements :: "jstring \<Rightarrow> (json list \<times> jstring) option"
  and parse_members :: "jstring \<Rightarrow> ((jstring \<times> json) list \<times> jstring) option"
where
  "parse_value s =
     (case skip_ws s of
        [] \<Rightarrow> None
      | c # r \<Rightarrow>
          if c = LBRACKET then
            (case skip_ws r of
               [] \<Rightarrow> None
             | c' # r' \<Rightarrow>
                 if c' = RBRACKET then Some (JArray [], r')
                 else map_option (apfst JArray) (parse_elements r))
          else if c = LBRACE then
            (case skip_ws r of
               [] \<Rightarrow> None
             | c' # r' \<Rightarrow>
                 if c' = RBRACE then Some (JObject [], r')
                 else map_option (apfst JObject) (parse_members r))
          else if c = QUOTE then map_option (apfst JString) (parse_string r)
          else if c = MINUS \<or> is_digit c then map_option (apfst JNumber) (parse_number (c # r))
          else parse_literal (c # r))"
| "parse_elements s =
     (case parse_value s of
        None \<Rightarrow> None
      | Some (v, r) \<Rightarrow>
          (case skip_ws r of
             [] \<Rightarrow> None
           | c # r' \<Rightarrow>
               if c = COMMA then
                 (if length r' < length s
                  then map_option (apfst ((#) v)) (parse_elements r')
                  else None)
               else if c = RBRACKET then Some ([v], r')
               else None))"
| "parse_members s =
     (case skip_ws s of
        [] \<Rightarrow> None
      | c # r \<Rightarrow>
          if c = QUOTE then
            (case parse_string r of
               None \<Rightarrow> None
             | Some (k, r1) \<Rightarrow>
                 (case skip_ws r1 of
                    [] \<Rightarrow> None
                  | c1 # r2 \<Rightarrow>
                      if c1 = COLON \<and> length r2 < length s then
                        (case parse_value r2 of
                           None \<Rightarrow> None
                         | Some (v, r3) \<Rightarrow>
                             (case skip_ws r3 of
                                [] \<Rightarrow> None
                              | c3 # r4 \<Rightarrow>
                                  if c3 = COMMA then
                                    (if length r4 < length s
                                     then map_option (apfst ((#) (k, v))) (parse_members r4)
                                     else None)
                                  else if c3 = RBRACE then Some ([(k, v)], r4)
                                  else None))
                      else None))
          else None)"
  by pat_completeness auto
termination
proof (relation "measure (\<lambda>x. case x of
          Inl s \<Rightarrow> 2 * length s
        | Inr (Inl s) \<Rightarrow> 2 * length s + 1
        | Inr (Inr s) \<Rightarrow> 2 * length s + 1)", goal_cases)
  case 1
  show ?case by simp
next
  case (2 s c r c' r')
  have "length (skip_ws s) \<le> length s"
    by (simp add: skip_ws_def length_dropWhile_le)
  with 2 show ?case by simp
next
  case (3 s c r c' r')
  have "length (skip_ws s) \<le> length s"
    by (simp add: skip_ws_def length_dropWhile_le)
  with 3 show ?case by simp
qed simp_all

declare parse_value.simps [simp del] parse_elements.simps [simp del] parse_members.simps [simp del]

text \<open>\<open>None\<close> stands for the \<^verbatim>\<open>SyntaxError\<close> that \<^verbatim>\<open>JSON.parse\<close> throws.\<close>

definition JSON_parse :: "jstring \<Rightarrow> json option" where
  "JSON_parse s =
     (case parse_value s of
        None \<Rightarrow> None
      | Some (v, r) \<Rightarrow> if skip_ws r = [] then Some v else None)"

section \<open>From a parsed value to the Note array\<close>

text \<open>
  \<^verbatim>\<open>JSON.parse(saved) as Note[]\<close> is an unchecked cast. The typed state of this
  development holds a list of notes, so the cast is made explicit: a value is a Note
  array if it is an array of objects with exactly the five properties of a note, the
  strings being strings and the time stamps integral numbers. Of two members with the
  same key the later one gives the value of the property.
\<close>

definition property :: "(jstring \<times> json) list \<Rightarrow> jstring \<Rightarrow> json option" where
  "property kvs k = map_of (rev kvs) k"

fun string_of :: "json option \<Rightarrow> jstring option" where
  "string_of (Some (JString s)) = Some s"
| "string_of _ = None"

fun integer_of :: "json option \<Rightarrow> int option" where
  "integer_of (Some (JNumber r)) = (if of_int \<lfloor>r\<rfloor> = r then Some \<lfloor>r\<rfloor> else None)"
| "integer_of _ = None"

definition note_keys :: "jstring list" where
  "note_keys = [js ''id'', js ''title'', js ''body'', js ''created'', js ''updated'']"

fun as_note :: "json \<Rightarrow> Note option" where
  "as_note (JObject kvs) =
     (if set (map fst kvs) = set note_keys then
        (case (string_of (property kvs (js ''id'')), string_of (property kvs (js ''title'')),
               string_of (property kvs (js ''body'')), integer_of (property kvs (js ''created'')),
               integer_of (property kvs (js ''updated''))) of
           (Some i, Some t, Some b, Some c, Some u) \<Rightarrow>
             Some \<lparr>id_note = i, title = t, body = b, created = c, updated = u\<rparr>
         | _ \<Rightarrow> None)
      else None)"
| "as_note _ = None"

fun as_notes :: "json \<Rightarrow> Note list option" where
  "as_notes (JArray vs) = those (map as_note vs)"
| "as_notes _ = None"

text \<open>The value that the text written for a note denotes.\<close>

definition note_json :: "Note \<Rightarrow> json" where
  "note_json n =
     JObject [(js ''id'', JString (id_note n)), (js ''title'', JString (title n)),
              (js ''body'', JString (body n)), (js ''created'', JNumber (of_int (created n))),
              (js ''updated'', JNumber (of_int (updated n)))]"

section \<open>The environment and the state of the component\<close>

text \<open>
  \<^verbatim>\<open>isClient()\<close> asks whether \<^verbatim>\<open>window\<close> and \<^verbatim>\<open>localStorage\<close> are
  defined; the watcher on \<^verbatim>\<open>notes\<close> is registered when \<^verbatim>\<open>window\<close> is.
\<close>

record env =
  has_window :: bool
  has_localStorage :: bool

definition isClient :: "env \<Rightarrow> bool" where
  "isClient e \<longleftrightarrow> has_window e \<and> has_localStorage e"

text \<open>
  The three refs of the component, the value stored under the key \<^verbatim>\<open>'notes'\<close> of
  \<^verbatim>\<open>localStorage\<close> (\<open>None\<close> when the key is absent), and whether a reactive write to
  \<^verbatim>\<open>notes\<close> has happened since the watcher last ran.
\<close>

record state =
  "notes" :: "Note list"
  currentNoteId :: "jstring option"
  dirty :: bool
  storage :: "jstring option"
  triggered :: bool

text \<open>The refs as the script creates them, over a given content of the store.\<close>

definition setup_state :: "jstring option \<Rightarrow> state" where
  "setup_state st =
     \<lparr>notes = [], currentNoteId = None, dirty = False, storage = st, triggered = False\<rparr>"

text \<open>\<^verbatim>\<open>Array.prototype.findIndex\<close>; \<open>None\<close> stands for the result \<open>-1\<close>.\<close>

fun findIndex :: "('a \<Rightarrow> bool) \<Rightarrow> 'a list \<Rightarrow> nat option" where
  "findIndex P [] = None"
| "findIndex P (x # xs) =
     (if P x then Some 0 else map_option Suc (findIndex P xs))"

text \<open>\<^verbatim>\<open>xs.splice(idx, 1)\<close>\<close>

definition splice1 :: "nat \<Rightarrow> 'a list \<Rightarrow> 'a list" where
  "splice1 idx xs = take idx xs @ drop (Suc idx) xs"

text \<open>
  \<^verbatim>\<open>!currentNoteId.value\<close> holds of \<^verbatim>\<open>null\<close> and of the empty string.
\<close>

definition falsy :: "jstring option \<Rightarrow> bool" where
  "falsy v \<longleftrightarrow> v = None \<or> v = Some []"

definition currentNote :: "state \<Rightarrow> Note option" where
  "currentNote s =
     (if falsy (currentNoteId s) then None
      else List.find (\<lambda>n. Some (id_note n) = currentNoteId s) (notes s))"

definition persistNotes :: "env \<Rightarrow> state \<Rightarrow> state" where
  "persistNotes e s =
     (if isClient e then s\<lparr>storage := Some (JSON_stringify (notes s))\<rparr> else s)"

text \<open>
  \<^verbatim>\<open>loadNotes\<close>: the empty array when there is no client, when the key is absent or
  holds the empty string (both fail the test \<^verbatim>\<open>!saved\<close>), and when
  \<^verbatim>\<open>JSON.parse\<close> throws; otherwise whatever was parsed.
\<close>

definition loadNotes :: "env \<Rightarrow> jstring option \<Rightarrow> json" where
  "loadNotes e st =
     (if \<not> isClient e then JArray []
      else case st of
             None \<Rightarrow> JArray []
           | Some saved \<Rightarrow>
               if saved = [] then JArray []
               else (case JSON_parse saved of None \<Rightarrow> JArray [] | Some v \<Rightarrow> v))"

text \<open>
  The \<^verbatim>\<open>onMounted\<close> hook assigns what \<^verbatim>\<open>loadNotes\<close> returns to
  \<^verbatim>\<open>notes\<close> without a check, and then reads its \<^verbatim>\<open>length\<close>. The hook ends in
  one of three ways:
  \<^item> \<open>Mounted s\<close>: the value was a Note array; \<open>s\<close> is the state when the hook returns;
  \<^item> \<open>TypeError\<close>: the value was \<^verbatim>\<open>null\<close>, and reading the length of
    \<^verbatim>\<open>null\<close> raises;
  \<^item> \<open>Untyped v\<close>: the value \<open>v\<close> is valid JSON of another shape; the script keeps it in
    \<^verbatim>\<open>notes\<close> as it is. The state is then outside the Note type and is not
    followed any further here.
\<close>

datatype mount_result = Mounted state | TypeError | Untyped json

definition onMounted :: "env \<Rightarrow> state \<Rightarrow> mount_result" where
  "onMounted e s =
     (if isClient e then
        (case as_notes (loadNotes e (storage s)) of
           None \<Rightarrow>
             if loadNotes e (storage s) = JNull then TypeError
             else Untyped (loadNotes e (storage s))
         | Some ns \<Rightarrow>
             Mounted (let s1 = s\<lparr>notes := ns, triggered := True\<rparr>
                  in case ns of
                       [] \<Rightarrow> s1
                     | n # _ \<Rightarrow>
                         if falsy (currentNoteId s1) then s1\<lparr>currentNoteId := Some (id_note n)\<rparr>
                         else s1))
      else Mounted s)"

text \<open>
  \<^verbatim>\<open>confirm(...)\<close> is a blocking dialog; its answer is an argument of the operation.
  It is asked only when \<^verbatim>\<open>dirty\<close> is set.
\<close>

definition selectNote :: "bool \<Rightarrow> jstring \<Rightarrow> state \<Rightarrow> state" where
  "selectNote answer i s =
     (if dirty s \<and> \<not> answer then s
      else s\<lparr>currentNoteId := Some i, dirty := False\<rparr>)"

text \<open>
  What \<^verbatim>\<open>createNewNote\<close> reads from outside: the answer of the dialog, the three
  readings of \<^verbatim>\<open>Date.now()\<close> (for the id, for \<^verbatim>\<open>created\<close> and for
  \<^verbatim>\<open>updated\<close>, in this order) and the string
  \<^verbatim>\<open>Math.random().toString(36).slice(2)\<close>.
\<close>

record create_input =
  confirm :: bool
  now_id :: int
  random36 :: jstring
  now_created :: int
  now_updated :: int

definition new_note :: "create_input \<Rightarrow> Note" where
  "new_note c =
     \<lparr>id_note = number_toString 36 (now_id c) @ random36 c,
      title = [], body = [],
      created = now_created c, updated = now_updated c\<rparr>"

definition createNewNote :: "env \<Rightarrow> create_input \<Rightarrow> state \<Rightarrow> state" where
  "createNewNote e c s =
     (if dirty s \<and> \<not> confirm c then s
      else
        let n = new_note c;
            s1 = s\<lparr>notes := n # notes s, triggered := True\<rparr>;
            s2 = persistNotes e s1
        in s2\<lparr>currentNoteId := Some (id_note n), dirty := False\<rparr>)"

definition deleteNote :: "env \<Rightarrow> bool \<Rightarrow> jstring \<Rightarrow> state \<Rightarrow> state" where
  "deleteNote e answer i s =
     (if \<not> answer then s
      else
        let s1 = (case findIndex (\<lambda>n. id_note n = i) (notes s) of
                    Some idx \<Rightarrow>
                      persistNotes e (s\<lparr>notes := splice1 idx (notes s), triggered := True\<rparr>)
                  | None \<Rightarrow> s)
        in if currentNoteId s1 = Some i
           then s1\<lparr>currentNoteId := (case notes s1 of [] \<Rightarrow> None | n # _ \<Rightarrow> Some (id_note n)),
                   dirty := False\<rparr>
           else s1)"

text \<open>
  The computed \<^verbatim>\<open>currentNote\<close> is the element of \<^verbatim>\<open>notes\<close> itself, so a write
  through it changes \<^verbatim>\<open>notes\<close> at the index of the first note with the current id.
  A reactive write notifies the watcher when the value written differs from the old one.
\<close>

definition write_current :: "(Note \<Rightarrow> Note) \<Rightarrow> state \<Rightarrow> state" where
  "write_current f s =
     (case currentNote s of
        None \<Rightarrow> s
      | Some cn \<Rightarrow>
          (case findIndex (\<lambda>n. Some (id_note n) = currentNoteId s) (notes s) of
             None \<Rightarrow> s
           | Some idx \<Rightarrow>
               s\<lparr>notes := (notes s)[idx := f cn],
                 triggered := (triggered s \<or> f cn \<noteq> cn)\<rparr>))"

definition updateCurrentNote :: "int \<Rightarrow> state \<Rightarrow> state" where
  "updateCurrentNote now s =
     (case currentNote s of
        None \<Rightarrow> s
      | Some cn \<Rightarrow> (write_current (\<lambda>n. n\<lparr>updated := now\<rparr>) s)\<lparr>dirty := True\<rparr>)"

text \<open>
  An input event on the title or the body field: \<^verbatim>\<open>v-model\<close> assigns the field of
  \<^verbatim>\<open>currentNote\<close>, then the \<^verbatim>\<open>@input\<close> handler runs. The fields are rendered
  only while there is a current note.
\<close>

definition edit :: "jstring option \<Rightarrow> jstring option \<Rightarrow> int \<Rightarrow> state \<Rightarrow> state" where
  "edit newTitle newBody now s =
     (let s1 = (case newTitle of None \<Rightarrow> s | Some t \<Rightarrow> write_current (\<lambda>n. n\<lparr>title := t\<rparr>) s);
          s2 = (case newBody of None \<Rightarrow> s1 | Some b \<Rightarrow> write_current (\<lambda>n. n\<lparr>body := b\<rparr>) s1)
      in updateCurrentNote now s2)"

definition saveCurrentNote :: "env \<Rightarrow> state \<Rightarrow> state" where
  "saveCurrentNote e s =
     (case currentNote s of
        None \<Rightarrow> s
      | Some cn \<Rightarrow>
          (case findIndex (\<lambda>n. id_note n = id_note cn) (notes s) of
             None \<Rightarrow> s
           | Some idx \<Rightarrow>
               (persistNotes e (s\<lparr>notes := (notes s)[idx := cn], triggered := True\<rparr>))
                 \<lparr>dirty := False\<rparr>))"

text \<open>
  \<^verbatim>\<open>watch(notes, persistNotes, { deep: true })\<close>: after a handler has returned, the
  queued callback of the watcher runs once if a reactive write to \<^verbatim>\<open>notes\<close> has
  happened. The watcher exists only where \<^verbatim>\<open>window\<close> is defined.
\<close>

definition flush :: "env \<Rightarrow> state \<Rightarrow> state" where
  "flush e s =
     (if triggered s
      then (if has_window e then persistNotes e s else s)\<lparr>triggered := False\<rparr>
      else s)"

text \<open>
  The note that an edit leaves in place of the current note \<open>n\<close>: the fields that the
  input event assigns, and the time stamp written by \<^verbatim>\<open>updateCurrentNote\<close>.
\<close>

definition edited :: "jstring option \<Rightarrow> jstring option \<Rightarrow> int \<Rightarrow> Note \<Rightarrow> Note" where
  "edited newTitle newBody now n =
     n\<lparr>title := (case newTitle of None \<Rightarrow> title n | Some t \<Rightarrow> t),
       body := (case newBody of None \<Rightarrow> body n | Some b \<Rightarrow> b),
       updated := now\<rparr>"

text \<open>A run of \<^verbatim>\<open>createNewNote\<close> calls, the first call first.\<close>

fun creates :: "env \<Rightarrow> create_input list \<Rightarrow> state \<Rightarrow> state" where
  "creates e [] s = s"
| "creates e (c # cs) s = creates e cs (createNewNote e c s)"


section \<open>A browser session used in the examples\<close>

text \<open>
  A client with a store, two rounds of input for \<^verbatim>\<open>createNewNote\<close> (in the second
  the clock advances between the reading for \<^verbatim>\<open>created\<close> and the one for
  \<^verbatim>\<open>updated\<close>), and the states after the first and after the second note have
  been created in an empty application.
\<close>

definition browser :: env where
  "browser = \<lparr>has_window = True, has_localStorage = True\<rparr>"

definition first_input :: create_input where
  "first_input = \<lparr>confirm = False, now_id = 1700000000000, random36 = js ''k3v9'',
                   now_created = 1700000000000, now_updated = 1700000000000\<rparr>"

definition second_input :: create_input where
  "second_input = \<lparr>confirm = False, now_id = 1700000000007, random36 = js ''0zq'',
                    now_created = 1700000000007, now_updated = 1700000000008\<rparr>"

definition one_note :: state where
  "one_note = createNewNote browser first_input (setup_state None)"

definition two_notes :: state where
  "two_notes = createNewNote browser second_input one_note"

text \<open>
  Sessions that start from a store written elsewhere: \<open>loaded ns\<close> is the state in which
  \<^verbatim>\<open>onMounted\<close> leaves a fresh component whose store holds the text of \<open>ns\<close>.
\<close>

definition plain_note :: "jstring \<Rightarrow> jstring \<Rightarrow> Note" where
  "plain_note i t = \<lparr>id_note = i, title = t, body = [], created = 0, updated = 0\<rparr>"

definition loaded :: "Note list \<Rightarrow> state" where
  "loaded ns =
     \<lparr>notes = ns, currentNoteId = (case ns of [] \<Rightarrow> None | n # _ \<Rightarrow> Some (id_note n)),
      dirty = False, storage = Some (JSON_stringify ns), triggered = True\<rparr>"

section \<open>The parser always moves forward\<close>

text \<open>
  Every part of the parser that succeeds returns a rest that is shorter than its input.
  Hence the comparisons of lengths in \<open>parse_elements\<close> and \<open>parse_members\<close> never
  fail, and both satisfy the equations of the grammar without them.
\<close>

lemma skip_ws_length: "length (skip_ws s) \<le> length s"
  by (simp add: skip_ws_def length_dropWhile_le)

lemma skip_ws_Cons_length: "skip_ws s = c # r \<Longrightarrow> length r < length s"
  using skip_ws_length [of s] by simp

lemma parse_string_shorter: "parse_string s = Some (k, r) \<Longrightarrow> length r < length s"
proof (induction s arbitrary: k rule: parse_string.induct)
  case 1
  then show ?case by simp
next
  case (2 c cs)
  show ?case
  proof (cases "c = QUOTE")
    case True
    with "2.prems" show ?thesis by (simp add: parse_string.simps(2))
  next
    case nq: False
    show ?thesis
    proof (cases "c = BACKSLASH")
      case False
      with nq "2.prems" obtain k' where "parse_string cs = Some (k', r)" and "\<not> c < 0x20"
        by (auto simp: parse_string.simps(2) split: if_splits)
      with "2.IH"(3) [of k'] nq False show ?thesis by simp
    next
      case True
      with "2.prems" have ncl: "\<not> c < 0x20" by (auto simp: parse_string.simps(2) split: if_splits)
      from True "2.prems" obtain e es where es: "cs = e # es"
        by (cases cs) (auto simp: parse_string.simps(2) split: if_splits)
      show ?thesis
      proof (cases "e = 0x75")
        case False
        with True nq es "2.prems" obtain u k' where
          "unescape e = Some u" "parse_string es = Some (k', r)"
          by (auto simp: parse_string.simps(2) split: if_splits option.splits)
        with "2.IH"(2) [OF nq ncl True es False, of u k'] es show ?thesis by simp
      next
        case u: True
        with True nq es "2.prems" obtain h1 h2 h3 h4 rest v k' where
          r: "es = h1 # h2 # h3 # h4 # rest" "hex4 h1 h2 h3 h4 = Some v"
             "parse_string rest = Some (k', r)"
          by (auto simp: parse_string.simps(2) split: if_splits option.splits list.splits)
        from "2.IH"(1) [OF nq ncl True es u r(1) refl refl refl r(2) r(3)] r(1) es
        show ?thesis by simp
      qed
    qed
  qed
qed


lemma dropWhile_shorter: "P c \<Longrightarrow> length (dropWhile P (c # r)) \<le> length r"
  by (simp add: length_dropWhile_le)

lemma parse_number_shorter: "parse_number s = Some (x, r) \<Longrightarrow> length r < length s"
proof -
  assume p: "parse_number s = Some (x, r)"
  obtain neg s1 where s1: "parse_sign s = (neg, s1)" by (cases "parse_sign s")
  then have l1: "length s1 \<le> length s"
    by (auto simp: parse_sign_def split: list.splits if_splits)
  from p s1 obtain ip s2 where s2: "parse_int_part s1 = Some (ip, s2)"
    by (auto simp: parse_number_def split: option.splits)
  then have l2: "length s2 < length s1"
    by (auto simp: parse_int_part_def length_dropWhile_le less_Suc_eq_le
        split: list.splits if_splits)
  from p s1 s2 obtain fp s3 where s3: "parse_frac s2 = Some (fp, s3)"
    by (auto simp: parse_number_def split: option.splits)
  then have l3: "length s3 \<le> length s2"
    by (auto simp: parse_frac_def le_SucI length_dropWhile_le split: list.splits if_splits)
  from p s1 s2 s3 obtain ex where s4: "parse_exp s3 = Some (ex, r)"
    by (auto simp: parse_number_def split: option.splits)
  have "length r \<le> length s3"
  proof (cases s3)
    case Nil
    with s4 show ?thesis by (simp add: parse_exp_def)
  next
    case (Cons c t)
    obtain ng t1 where t1: "parse_exp_sign t = (ng, t1)" by (cases "parse_exp_sign t")
    then have "length t1 \<le> length t"
      by (auto simp: parse_exp_sign_def split: list.splits if_splits)
    moreover have "length (dropWhile is_digit t1) \<le> length t1" by (rule length_dropWhile_le)
    ultimately show ?thesis
      using s4 Cons t1 by (auto simp: parse_exp_def split: if_splits)
  qed
  with l1 l2 l3 show ?thesis by simp
qed

lemma parse_literal_shorter: "parse_literal s = Some (v, r) \<Longrightarrow> length r < length s"
proof -
  assume p: "parse_literal s = Some (v, r)"
  have four: "take 4 s = js w \<Longrightarrow> length w = 4 \<Longrightarrow> length (drop 4 s) < length s" for w
    by (cases s) (auto simp: js_def)
  have five: "take 5 s = js w \<Longrightarrow> length w = 5 \<Longrightarrow> length (drop 5 s) < length s" for w
    by (cases s) (auto simp: js_def)
  from p consider "take 4 s = js ''null''" "r = drop 4 s" | "take 4 s = js ''true''" "r = drop 4 s"
    | "take 5 s = js ''false''" "r = drop 5 s"
    by (auto simp: parse_literal_def split: if_splits)
  then show ?thesis
  proof cases
    case 1
    with four [of "''null''"] show ?thesis by simp
  next
    case 2
    with four [of "''true''"] show ?thesis by simp
  next
    case 3
    with five [of "''false''"] show ?thesis by simp
  qed
qed


lemma parsers_shorter:
  "(\<forall>v r. parse_value s = Some (v, r) \<longrightarrow> length r < length s)
   \<and> (\<forall>vs r. parse_elements s = Some (vs, r) \<longrightarrow> length r < length s)
   \<and> (\<forall>ms r. parse_members s = Some (ms, r) \<longrightarrow> length r < length s)"
proof (induction "length s" arbitrary: s rule: less_induct)
  case less
  have IH_elements: "parse_elements t = Some (vs, r) \<Longrightarrow> length t < length s \<Longrightarrow> length r < length t"
    for t vs r using less [of t] by blast
  have IH_members: "parse_members t = Some (ms, r) \<Longrightarrow> length t < length s \<Longrightarrow> length r < length t"
    for t ms r using less [of t] by blast
  have IH_value: "parse_value t = Some (v, r) \<Longrightarrow> length t < length s \<Longrightarrow> length r < length t"
    for t v r using less [of t] by blast
  have P: "length r < length s" if p: "parse_value s = Some (v, r)" for v r
  proof (cases "skip_ws s")
    case Nil
    with p show ?thesis by (simp add: parse_value.simps)
  next
    case (Cons c r0)
    then have r0: "length r0 < length s" by (rule skip_ws_Cons_length)
    from Cons have cr0: "length (c # r0) \<le> length s" using skip_ws_length [of s] by simp
    consider (arr) "c = LBRACKET" | (obj) "c \<noteq> LBRACKET" "c = LBRACE"
      | (str) "c \<noteq> LBRACKET" "c \<noteq> LBRACE" "c = QUOTE"
      | (num) "c \<noteq> LBRACKET" "c \<noteq> LBRACE" "c \<noteq> QUOTE" "c = MINUS \<or> is_digit c"
      | (lit) "c \<noteq> LBRACKET" "c \<noteq> LBRACE" "c \<noteq> QUOTE" "\<not> (c = MINUS \<or> is_digit c)"
      by blast
    then show ?thesis
    proof cases
      case arr
      show ?thesis
      proof (cases "skip_ws r0")
        case Nil
        with p Cons arr show ?thesis by (simp add: parse_value.simps)
      next
        case inner: (Cons c' r')
        then have r': "length r' < length r0" by (rule skip_ws_Cons_length)
        show ?thesis
        proof (cases "c' = RBRACKET")
          case True
          with p Cons arr inner have "r = r'" by (simp add: parse_value.simps)
          with r' r0 show ?thesis by simp
        next
          case False
          with p Cons arr inner obtain vs where "parse_elements r0 = Some (vs, r)"
            by (auto simp: parse_value.simps)
          from IH_elements [OF this r0] r0 show ?thesis by simp
        qed
      qed
    next
      case obj
      show ?thesis
      proof (cases "skip_ws r0")
        case Nil
        with p Cons obj show ?thesis by (simp add: parse_value.simps)
      next
        case inner: (Cons c' r')
        then have r': "length r' < length r0" by (rule skip_ws_Cons_length)
        show ?thesis
        proof (cases "c' = RBRACE")
          case True
          with p Cons obj inner have "r = r'" by (simp add: parse_value.simps)
          with r' r0 show ?thesis by simp
        next
          case False
          with p Cons obj inner obtain ms where "parse_members r0 = Some (ms, r)"
            by (auto simp: parse_value.simps)
          from IH_members [OF this r0] r0 show ?thesis by simp
        qed
      qed
    next
      case str
      with p Cons obtain k where "parse_string r0 = Some (k, r)"
        by (auto simp: parse_value.simps)
      from parse_string_shorter [OF this] r0 show ?thesis by simp
    next
      case num
      with p Cons obtain x where "parse_number (c # r0) = Some (x, r)"
        by (auto simp: parse_value.simps)
      from parse_number_shorter [OF this] cr0 show ?thesis by simp
    next
      case lit
      with p Cons have "parse_literal (c # r0) = Some (v, r)"
        by (simp add: parse_value.simps)
      from parse_literal_shorter [OF this] cr0 show ?thesis by simp
    qed
  qed
  have Q: "length r < length s" if p: "parse_elements s = Some (vs, r)" for vs r
  proof -
    from p obtain v r1 where v: "parse_value s = Some (v, r1)"
      by (subst (asm) parse_elements.simps) (auto split: option.splits)
    then have r1: "length r1 < length s" by (rule P)
    from p v obtain c r2 where c: "skip_ws r1 = c # r2"
      by (subst (asm) parse_elements.simps) (auto split: list.splits)
    then have r2: "length r2 < length r1" by (rule skip_ws_Cons_length)
    show ?thesis
    proof (cases "c = COMMA")
      case True
      with p v c obtain ws where "parse_elements r2 = Some (ws, r)"
        by (subst (asm) parse_elements.simps) (auto split: if_splits)
      from IH_elements [OF this] r1 r2 show ?thesis by simp
    next
      case False
      with p v c have "r = r2"
        by (subst (asm) parse_elements.simps) (auto split: if_splits)
      with r1 r2 show ?thesis by simp
    qed
  qed
  have R: "length r < length s" if p: "parse_members s = Some (ms, r)" for ms r
  proof -
    from p obtain c r0 where c: "skip_ws s = c # r0"
      by (subst (asm) parse_members.simps) (auto split: list.splits)
    then have r0: "length r0 < length s" by (rule skip_ws_Cons_length)
    from p c have q: "c = QUOTE"
      by (subst (asm) parse_members.simps) (auto split: if_splits)
    with p c obtain k r1 where k: "parse_string r0 = Some (k, r1)"
      by (subst (asm) parse_members.simps) (auto split: option.splits)
    then have r1: "length r1 < length r0" by (rule parse_string_shorter)
    from p c q k obtain c1 r2 where c1: "skip_ws r1 = c1 # r2"
      by (subst (asm) parse_members.simps) (auto split: list.splits)
    then have r2: "length r2 < length r1" by (rule skip_ws_Cons_length)
    from p c q k c1 have colon: "c1 = COLON"
      by (subst (asm) parse_members.simps) (auto split: if_splits)
    from r0 r1 r2 have r2s: "length r2 < length s" by simp
    with p c q k c1 colon obtain v r3 where v: "parse_value r2 = Some (v, r3)"
      by (subst (asm) parse_members.simps) (auto split: option.splits)
    from IH_value [OF v r2s] have r3: "length r3 < length r2" .
    from p c q k c1 colon r2s v obtain c3 r4 where c3: "skip_ws r3 = c3 # r4"
      by (subst (asm) parse_members.simps) (auto split: list.splits)
    then have r4: "length r4 < length r3" by (rule skip_ws_Cons_length)
    from r4 r3 r2s have r4s: "length r4 < length s" by simp
    show ?thesis
    proof (cases "c3 = COMMA")
      case True
      with p c q k c1 colon r2s v c3 r4s obtain ms' where "parse_members r4 = Some (ms', r)"
        by (subst (asm) parse_members.simps) auto
      from IH_members [OF this r4s] r4s show ?thesis by simp
    next
      case False
      with p c q k c1 colon r2s v c3 have "r = r4"
        by (subst (asm) parse_members.simps) (auto split: if_splits)
      with r4s show ?thesis by simp
    qed
  qed
  from P Q R show ?case by blast
qed


lemma parse_value_shorter: "parse_value s = Some (v, r) \<Longrightarrow> length r < length s"
  using parsers_shorter [of s] by blast

lemma parse_elements_unguarded:
  "parse_elements s =
     (case parse_value s of
        None \<Rightarrow> None
      | Some (v, r) \<Rightarrow>
          (case skip_ws r of
             [] \<Rightarrow> None
           | c # r' \<Rightarrow>
               if c = COMMA then map_option (apfst ((#) v)) (parse_elements r')
               else if c = RBRACKET then Some ([v], r')
               else None))"
proof (cases "parse_value s")
  case None
  then show ?thesis by (subst parse_elements.simps) simp
next
  case (Some a)
  obtain v r where a: "a = (v, r)" by (cases a)
  with Some have r: "length r < length s" by (simp add: parse_value_shorter)
  show ?thesis
  proof (cases "skip_ws r")
    case Nil
    with Some a show ?thesis by (subst parse_elements.simps) simp
  next
    case (Cons c r')
    with r have "length r' < length s" using skip_ws_Cons_length [of r c r'] by simp
    with Some a Cons show ?thesis by (subst parse_elements.simps) simp
  qed
qed

lemma parse_members_unguarded:
  "parse_members s =
     (case skip_ws s of
        [] \<Rightarrow> None
      | c # r \<Rightarrow>
          if c = QUOTE then
            (case parse_string r of
               None \<Rightarrow> None
             | Some (k, r1) \<Rightarrow>
                 (case skip_ws r1 of
                    [] \<Rightarrow> None
                  | c1 # r2 \<Rightarrow>
                      if c1 = COLON then
                        (case parse_value r2 of
                           None \<Rightarrow> None
                         | Some (v, r3) \<Rightarrow>
                             (case skip_ws r3 of
                                [] \<Rightarrow> None
                              | c3 # r4 \<Rightarrow>
                                  if c3 = COMMA
                                  then map_option (apfst ((#) (k, v))) (parse_members r4)
                                  else if c3 = RBRACE then Some ([(k, v)], r4)
                                  else None))
                      else None))
          else None)"
proof (cases "skip_ws s")
  case Nil
  then show ?thesis by (subst parse_members.simps) simp
next
  case (Cons c r)
  then have r: "length r < length s" by (rule skip_ws_Cons_length)
  show ?thesis
  proof (cases "parse_string r")
    case None
    with Cons show ?thesis by (subst parse_members.simps) simp
  next
    case (Some a)
    obtain k r1 where a: "a = (k, r1)" by (cases a)
    with Some have r1: "length r1 < length r" by (simp add: parse_string_shorter)
    show ?thesis
    proof (cases "skip_ws r1")
      case Nil
      with Cons Some a show ?thesis by (subst parse_members.simps) simp
    next
      case inner: (Cons c1 r2)
      then have "length r2 < length r1" by (rule skip_ws_Cons_length)
      with r r1 have r2: "length r2 < length s" by simp
      show ?thesis
      proof (cases "parse_value r2")
        case None
        with Cons Some a inner show ?thesis by (subst parse_members.simps) simp
      next
        case val: (Some b)
        obtain v r3 where b: "b = (v, r3)" by (cases b)
        with val have r3: "length r3 < length r2" by (simp add: parse_value_shorter)
        show ?thesis
        proof (cases "skip_ws r3")
          case Nil
          with Cons Some a inner val b show ?thesis by (subst parse_members.simps) simp
        next
          case last: (Cons c3 r4)
          then have "length r4 < length r3" by (rule skip_ws_Cons_length)
          with r2 r3 have "length r4 < length s" by simp
          with Cons Some a inner val b last r2 show ?thesis
            by (subst parse_members.simps) simp
        qed
      qed
    qed
  qed
qed

text \<open>Some texts and what \<^verbatim>\<open>JSON.parse\<close> makes of them.\<close>

lemmas json_eval = JSON_parse_def parse_value.simps parse_elements.simps parse_members.simps
  parse_string.simps skip_ws_def is_ws_def is_digit_def parse_literal_def js_def
  parse_number_def parse_sign_def parse_int_part_def parse_frac_def parse_exp_def
  parse_exp_sign_def digits_val_def number_value_def hex4_def hex_val_def unescape_def

lemma JSON_parse_mixed:
  "JSON_parse (js '' [1, -2.5e1 , \"a'' @ [BACKSLASH, 0x6E, BACKSLASH, 0x75, 0x30, 0x30, 0x34, 0x31]
      @ js ''\", {\"k\" : null, \"t\":[true,false]} ] '') =
   Some (JArray [JNumber 1, JNumber (- 25), JString [0x61, 0x0A, 0x41],
                 JObject [(js ''k'', JNull), (js ''t'', JArray [JBool True, JBool False])]])"
  by (simp add: json_eval)

lemma JSON_parse_rejects:
  "JSON_parse (js ''[1,]'') = None"
  "JSON_parse (js ''01'') = None"
  "JSON_parse (js ''{\"a\":1,}'') = None"
  "JSON_parse (js ''nul'') = None"
  "JSON_parse (js ''[] x'') = None"
  "JSON_parse [] = None"
  by (simp_all add: json_eval)

section \<open>Reading back what was written\<close>

subsection \<open>Numbers\<close>

lemma to_digits_nonempty: "to_digits b n \<noteq> []"
  by (induction b n rule: to_digits.induct) (subst to_digits.simps, simp)

lemma to_digits_bound: "2 \<le> b \<Longrightarrow> \<forall>d \<in> set (to_digits b n). d < b"
proof (induction b n rule: to_digits.induct)
  case (1 b n)
  show ?case
  proof (cases "n < b")
    case True
    then show ?thesis by (subst to_digits.simps) simp
  next
    case False
    with 1 show ?thesis by (subst to_digits.simps) auto
  qed
qed

lemma to_digits_hd: "2 \<le> b \<Longrightarrow> 0 < n \<Longrightarrow> hd (to_digits b n) \<noteq> 0"
proof (induction b n rule: to_digits.induct)
  case (1 b n)
  show ?case
  proof (cases "n < b")
    case True
    with 1 show ?thesis by (subst to_digits.simps) simp
  next
    case False
    with 1 have "0 < n div b" by (simp add: div_greater_zero_iff)
    with 1 False have "hd (to_digits b (n div b)) \<noteq> 0" by simp
    with False 1 show ?thesis
      by (subst to_digits.simps) (simp add: to_digits_nonempty)
  qed
qed

lemma digit_char_is_digit: "d < 10 \<Longrightarrow> is_digit (digit_char d)"
proof -
  assume "d < 10"
  then have "d \<in> {0, 1, 2, 3, 4, 5, 6, 7, 8, 9}" by auto
  then show ?thesis by (auto simp: is_digit_def digit_char_def)
qed

lemma digit_char_val: "d < 10 \<Longrightarrow> unat (digit_char d) - 48 = d"
proof -
  assume "d < 10"
  then have "d \<in> {0, 1, 2, 3, 4, 5, 6, 7, 8, 9}" by auto
  then show ?thesis by (auto simp: digit_char_def)
qed

lemma digit_char_zero: "d < 10 \<Longrightarrow> digit_char d = ZERO \<longleftrightarrow> d = 0"
proof -
  assume "d < 10"
  then have "d \<in> {0, 1, 2, 3, 4, 5, 6, 7, 8, 9}" by auto
  then show ?thesis by (auto simp: digit_char_def)
qed

lemma digit_char_not_minus: "d < 10 \<Longrightarrow> digit_char d \<noteq> MINUS"
proof -
  assume "d < 10"
  then have "d \<in> {0, 1, 2, 3, 4, 5, 6, 7, 8, 9}" by auto
  then show ?thesis by (auto simp: digit_char_def)
qed

lemma digits_val_snoc: "digits_val (ds @ [c]) = 10 * digits_val ds + (unat c - 48)"
  by (simp add: digits_val_def)

lemma digits_val_to_digits: "digits_val (map digit_char (to_digits 10 n)) = n"
proof (induction "10::nat" n rule: to_digits.induct)
  case (1 n)
  show ?case
  proof (cases "n < 10")
    case True
    then show ?thesis
      by (subst to_digits.simps) (simp add: digits_val_def digit_char_val)
  next
    case False
    with 1 have "digits_val (map digit_char (to_digits 10 (n div 10))) = n div 10" by simp
    with False show ?thesis
      by (subst to_digits.simps) (simp add: digits_val_snoc digit_char_val)
  qed
qed

lemma takeWhile_digits:
  assumes "\<forall>d \<in> set ds. d < 10" and "\<not> is_digit c"
  shows "takeWhile is_digit (map digit_char ds @ c # r) = map digit_char ds"
    and "dropWhile is_digit (map digit_char ds @ c # r) = c # r"
  using assms by (induction ds) (auto simp: digit_char_is_digit)


lemma parse_nat:
  assumes "c = COMMA \<or> c = RBRACE"
  shows "parse_number (map digit_char (to_digits 10 n) @ c # r) = Some (of_nat n, c # r)"
proof -
  let ?ds = "to_digits 10 n"
  from assms have c: "\<not> is_digit c" "c \<noteq> DOT" "c \<noteq> 0x65" "c \<noteq> 0x45"
    by (auto simp: is_digit_def)
  have bound: "\<forall>d \<in> set ?ds. d < 10" by (simp add: to_digits_bound)
  obtain d ds where ds: "?ds = d # ds"
    using to_digits_nonempty [of 10 n] by (cases ?ds) auto
  with bound have d: "d < 10" by simp
  have sign: "parse_sign (map digit_char ?ds @ c # r) = (False, map digit_char ?ds @ c # r)"
    using d by (simp add: parse_sign_def ds digit_char_not_minus)
  have ip: "parse_int_part (map digit_char ?ds @ c # r) = Some (map digit_char ?ds, c # r)"
  proof (cases "n = 0")
    case True
    then have "?ds = [0]" by (subst to_digits.simps) simp
    then show ?thesis by (simp add: parse_int_part_def digit_char_def)
  next
    case False
    then have "hd ?ds \<noteq> 0" by (simp add: to_digits_hd)
    with ds d have "digit_char d \<noteq> ZERO" by (simp add: digit_char_zero)
    moreover have "is_digit (digit_char d)" using d by (rule digit_char_is_digit)
    ultimately show ?thesis
      using takeWhile_digits [OF bound c(1), of r]
      by (simp add: parse_int_part_def ds)
  qed
  have fp: "parse_frac (c # r) = Some ([], c # r)" using c by (simp add: parse_frac_def)
  have ex: "parse_exp (c # r) = Some (0, c # r)" using c by (simp add: parse_exp_def)
  show ?thesis
    by (simp add: parse_number_def sign ip fp ex number_value_def digits_val_to_digits)
qed

lemma parse_number_toString:
  assumes "c = COMMA \<or> c = RBRACE"
  shows "parse_number (number_toString 10 n @ c # r) = Some (of_int n, c # r)"
proof (cases "n < 0")
  case False
  with parse_nat [OF assms, of "nat n" r] show ?thesis
    by (simp add: number_toString_def)
next
  case True
  let ?m = "nat (- n)"
  let ?ds = "to_digits 10 ?m"
  from assms have c: "\<not> is_digit c" "c \<noteq> DOT" "c \<noteq> 0x65" "c \<noteq> 0x45"
    by (auto simp: is_digit_def)
  have bound: "\<forall>d \<in> set ?ds. d < 10" by (simp add: to_digits_bound)
  obtain d ds where ds: "?ds = d # ds"
    using to_digits_nonempty [of 10 ?m] by (cases ?ds) auto
  with bound have d: "d < 10" by simp
  from True have "0 < ?m" by simp
  then have "hd ?ds \<noteq> 0" by (simp add: to_digits_hd)
  with ds d have nz: "digit_char d \<noteq> ZERO" by (simp add: digit_char_zero)
  have dg: "is_digit (digit_char d)" using d by (rule digit_char_is_digit)
  have ip: "parse_int_part (map digit_char ?ds @ c # r) = Some (map digit_char ?ds, c # r)"
    using takeWhile_digits [OF bound c(1), of r] nz dg
    by (simp add: parse_int_part_def ds)
  have fp: "parse_frac (c # r) = Some ([], c # r)" using c by (simp add: parse_frac_def)
  have ex: "parse_exp (c # r) = Some (0, c # r)" using c by (simp add: parse_exp_def)
  from True have "- rat_of_nat ?m = rat_of_int n"
    by (metis less_SucI linorder_not_less  of_int_minus of_int_of_nat_eq int_nat_eq minus_minus neg_0_le_iff_le not_less_iff_gr_or_eq order.asym)
  then show ?thesis using True
    by (simp add: parse_number_def parse_sign_def number_toString_def ip fp ex number_value_def
        digits_val_to_digits)
qed


subsection \<open>Strings\<close>

lemma unat_digit_char:
  "d < 36 \<Longrightarrow> unat (digit_char d) = (if d < 10 then 48 + d else 87 + d)"
  by (simp add: digit_char_def unat_of_nat del: of_nat_add)

lemma hex_val_digit_char: "d < 16 \<Longrightarrow> hex_val (digit_char d) = Some d"
  by (simp add: hex_val_def word_le_nat_alt unat_digit_char)

lemma hex_digits_value:
  fixes n :: nat
  shows "((n div 4096 * 16 + n div 256 mod 16) * 16 + n div 16 mod 16) * 16 + n mod 16 = n"
proof -
  have a: "n div 256 = n div 16 div 16" by (simp add: div_mult2_eq [symmetric])
  have b: "n div 4096 = n div 256 div 16" by (simp add: div_mult2_eq [symmetric])
  have "n div 4096 * 16 + n div 256 mod 16 = n div 256"
    unfolding b by simp
  moreover have "n div 256 * 16 + n div 16 mod 16 = n div 16"
    unfolding a by simp
  moreover have "n div 16 * 16 + n mod 16 = n" by simp
  ultimately show ?thesis by simp
qed

lemma hex4_UnicodeEscape:
  "hex4 (digit_char (unat c div 4096)) (digit_char (unat c div 256 mod 16))
        (digit_char (unat c div 16 mod 16)) (digit_char (unat c mod 16)) = Some c"
proof -
  let ?n = "unat c"
  have "?n < 2 ^ 16" using unsigned_less [of c, where ?'a = nat] by simp
  then have "?n div 4096 < 16" by simp
  then have "hex_val (digit_char (?n div 4096)) = Some (?n div 4096)"
    by (rule hex_val_digit_char)
  moreover have "hex_val (digit_char (?n div 256 mod 16)) = Some (?n div 256 mod 16)"
    by (rule hex_val_digit_char) simp
  moreover have "hex_val (digit_char (?n div 16 mod 16)) = Some (?n div 16 mod 16)"
    by (rule hex_val_digit_char) simp
  moreover have "hex_val (digit_char (?n mod 16)) = Some (?n mod 16)"
    by (rule hex_val_digit_char) simp
  moreover have "(word_of_nat (((?n div 4096 * 16 + ?n div 256 mod 16) * 16 + ?n div 16 mod 16) * 16
      + ?n mod 16) :: jschar) = c"
    by (simp only: hex_digits_value) simp
  ultimately show ?thesis
    by (simp only: hex4_def prod.case option.case)
qed


lemma parse_string_UnicodeEscape:
  "parse_string (UnicodeEscape c @ t) = map_option (apfst ((#) c)) (parse_string t)"
proof -
  have "parse_string (UnicodeEscape c @ t) =
        (case hex4 (digit_char (unat c div 4096)) (digit_char (unat c div 256 mod 16))
                   (digit_char (unat c div 16 mod 16)) (digit_char (unat c mod 16)) of
           None \<Rightarrow> None
         | Some u \<Rightarrow> map_option (apfst ((#) u)) (parse_string t))"
    by (simp add: UnicodeEscape_def Let_def parse_string.simps(2))
  then show ?thesis by (simp only: hex4_UnicodeEscape option.case)
qed

lemma parse_string_plain_unit:
  "c \<noteq> QUOTE \<Longrightarrow> \<not> c < 0x20 \<Longrightarrow> c \<noteq> BACKSLASH \<Longrightarrow>
   parse_string (c # t) = map_option (apfst ((#) c)) (parse_string t)"
  by (simp add: parse_string.simps(2))


lemma parse_string_quote_unit:
  "parse_string (quote_unit c @ t) = map_option (apfst ((#) c)) (parse_string t)"
proof (cases "c = 0x08 \<or> c = 0x09 \<or> c = 0x0A \<or> c = 0x0C \<or> c = 0x0D \<or> c = QUOTE \<or> c = BACKSLASH")
  case True
  then show ?thesis
    by (elim disjE) (simp_all add: quote_unit_def parse_string.simps(2) unescape_def)
next
  case False
  show ?thesis
  proof (cases "c < 0x20 \<or> is_leading c \<or> is_trailing c")
    case True
    with False have "quote_unit c = UnicodeEscape c" by (simp add: quote_unit_def)
    then show ?thesis by (simp add: parse_string_UnicodeEscape)
  next
    case plain: False
    with False have "quote_unit c = [c]" by (simp add: quote_unit_def)
    with False plain show ?thesis by (simp add: parse_string_plain_unit)
  qed
qed

lemma surrogate_plain:
  assumes "is_leading c \<or> is_trailing c"
  shows "c \<noteq> QUOTE" and "c \<noteq> BACKSLASH" and "\<not> c < 0x20"
proof -
  from assms have "0xD800 \<le> unat c"
    by (auto simp: is_leading_def is_trailing_def word_le_nat_alt)
  then show "c \<noteq> QUOTE" and "c \<noteq> BACKSLASH" and "\<not> c < 0x20"
    by (auto simp: word_less_nat_alt)
qed

lemma parse_string_quote_chars:
  "parse_string (quote_chars s @ QUOTE # t) = Some (s, t)"
proof (induction s rule: quote_chars.induct)
  case 1
  show ?case by (simp add: parse_string.simps(2))
next
  case (2 c)
  have "parse_string (QUOTE # t) = Some ([], t)" by (simp add: parse_string.simps(2))
  then show ?case
    using parse_string_quote_unit [of c "QUOTE # t"] by simp
next
  case (3 c d cs)
  show ?case
  proof (cases "is_leading c \<and> is_trailing d")
    case True
    with 3 have IH: "parse_string (quote_chars cs @ QUOTE # t) = Some (cs, t)" by simp
    from True have "parse_string (c # d # quote_chars cs @ QUOTE # t) = Some (c # d # cs, t)"
      using surrogate_plain [of c] surrogate_plain [of d]
      by (simp add: parse_string_plain_unit IH)
    with True show ?thesis by simp
  next
    case False
    with 3 have IH: "parse_string (quote_chars (d # cs) @ QUOTE # t) = Some (d # cs, t)"
      by simp
    from False have "quote_chars (c # d # cs) = quote_unit c @ quote_chars (d # cs)" by auto
    then show ?thesis
      using parse_string_quote_unit [of c "quote_chars (d # cs) @ QUOTE # t"] IH
      by simp
  qed
qed

lemma parse_string_plain:
  "\<forall>c \<in> set k. c \<noteq> QUOTE \<and> c \<noteq> BACKSLASH \<and> \<not> c < 0x20 \<Longrightarrow>
   parse_string (k @ QUOTE # t) = Some (k, t)"
  by (induction k) (simp_all add: parse_string.simps(2))


subsection \<open>Notes and arrays of notes\<close>

lemma skip_ws_nonws: "\<not> is_ws c \<Longrightarrow> skip_ws (c # t) = c # t"
  by (simp add: skip_ws_def)

lemma parse_value_string:
  "parse_value (QuoteJSONString v @ t) = Some (JString v, t)"
  by (subst parse_value.simps)
     (simp add: QuoteJSONString_def skip_ws_def is_ws_def parse_string_quote_chars)

lemma number_toString_hd:
  "\<exists>c r. number_toString 10 n = c # r \<and> (c = MINUS \<or> is_digit c)"
proof (cases "n < 0")
  case True
  then show ?thesis by (simp add: number_toString_def)
next
  case False
  obtain d ds where ds: "to_digits 10 (nat n) = d # ds"
    using to_digits_nonempty [of 10 "nat n"] by (cases "to_digits 10 (nat n)") auto
  moreover have "\<forall>d \<in> set (to_digits 10 (nat n)). d < 10" by (simp add: to_digits_bound)
  ultimately have "is_digit (digit_char d)" by (simp add: digit_char_is_digit)
  with False ds show ?thesis by (simp add: number_toString_def)
qed

lemma parse_value_number:
  assumes "c = COMMA \<or> c = RBRACE"
  shows "parse_value (number_toString 10 n @ c # t) = Some (JNumber (of_int n), c # t)"
proof -
  obtain d r where dr: "number_toString 10 n = d # r" "d = MINUS \<or> is_digit d"
    using number_toString_hd by blast
  then have d: "\<not> is_ws d" "d \<noteq> LBRACKET" "d \<noteq> LBRACE" "d \<noteq> QUOTE"
    by (auto simp: is_ws_def is_digit_def)
  have "parse_number (d # r @ c # t) = Some (of_int n, c # t)"
    using parse_number_toString [OF assms, of n t] dr(1) by simp
  with d dr(2) have "parse_value (d # r @ c # t) = Some (JNumber (of_int n), c # t)"
    by (subst parse_value.simps) (simp add: skip_ws_nonws)
  with dr(1) show ?thesis by simp
qed

lemma parse_members_more:
  assumes "\<forall>c \<in> set k. c \<noteq> QUOTE \<and> c \<noteq> BACKSLASH \<and> \<not> c < 0x20" and "parse_value (x @ COMMA # t) = Some (v, COMMA # t)"
  shows "parse_members (QUOTE # k @ QUOTE # COLON # x @ COMMA # t) =
         map_option (apfst ((#) (k, v))) (parse_members t)"
proof -
  have "parse_string (k @ QUOTE # COLON # x @ COMMA # t) = Some (k, COLON # x @ COMMA # t)"
    using assms(1) by (simp add: parse_string_plain)
  then show ?thesis
    using assms(2)
    by (subst parse_members.simps) (simp add: skip_ws_def is_ws_def)
qed

lemma parse_members_last:
  assumes "\<forall>c \<in> set k. c \<noteq> QUOTE \<and> c \<noteq> BACKSLASH \<and> \<not> c < 0x20" and "parse_value (x @ RBRACE # t) = Some (v, RBRACE # t)"
  shows "parse_members (QUOTE # k @ QUOTE # COLON # x @ RBRACE # t) = Some ([(k, v)], t)"
proof -
  have "parse_string (k @ QUOTE # COLON # x @ RBRACE # t) = Some (k, COLON # x @ RBRACE # t)"
    using assms(1) by (simp add: parse_string_plain)
  then show ?thesis
    using assms(2)
    by (subst parse_members.simps) (simp add: skip_ws_def is_ws_def)
qed


lemma plain_keys:
  "\<forall>c \<in> set (js ''id''). c \<noteq> QUOTE \<and> c \<noteq> BACKSLASH \<and> \<not> c < 0x20"
  "\<forall>c \<in> set (js ''title''). c \<noteq> QUOTE \<and> c \<noteq> BACKSLASH \<and> \<not> c < 0x20"
  "\<forall>c \<in> set (js ''body''). c \<noteq> QUOTE \<and> c \<noteq> BACKSLASH \<and> \<not> c < 0x20"
  "\<forall>c \<in> set (js ''created''). c \<noteq> QUOTE \<and> c \<noteq> BACKSLASH \<and> \<not> c < 0x20"
  "\<forall>c \<in> set (js ''updated''). c \<noteq> QUOTE \<and> c \<noteq> BACKSLASH \<and> \<not> c < 0x20"
  by (simp_all add: js_def)

lemma parse_value_note:
  "parse_value (stringify_note n @ t) = Some (note_json n, t)"
proof -
  define m5 where "m5 = QUOTE # js ''updated'' @ QUOTE # COLON # number_toString 10 (updated n) @ RBRACE # t"
  define m4 where "m4 = QUOTE # js ''created'' @ QUOTE # COLON # number_toString 10 (created n) @ COMMA # m5"
  define m3 where "m3 = QUOTE # js ''body'' @ QUOTE # COLON # QuoteJSONString (body n) @ COMMA # m4"
  define m2 where "m2 = QUOTE # js ''title'' @ QUOTE # COLON # QuoteJSONString (title n) @ COMMA # m3"
  define m1 where "m1 = QUOTE # js ''id'' @ QUOTE # COLON # QuoteJSONString (id_note n) @ COMMA # m2"
  have shape: "stringify_note n @ t = LBRACE # m1"
    by (simp add: stringify_note_def m1_def m2_def m3_def m4_def m5_def js_def)
  have p5: "parse_members m5 = Some ([(js ''updated'', JNumber (of_int (updated n)))], t)"
    unfolding m5_def by (rule parse_members_last) (simp_all add: plain_keys parse_value_number)
  have p4: "parse_members m4 = Some ([(js ''created'', JNumber (of_int (created n))),
                                      (js ''updated'', JNumber (of_int (updated n)))], t)"
    unfolding m4_def
    by (subst parse_members_more) (simp_all add: plain_keys parse_value_number p5)
  have p3: "parse_members m3 = Some ([(js ''body'', JString (body n)),
                                      (js ''created'', JNumber (of_int (created n))),
                                      (js ''updated'', JNumber (of_int (updated n)))], t)"
    unfolding m3_def
    by (subst parse_members_more) (simp_all add: plain_keys parse_value_string p4)
  have p2: "parse_members m2 = Some ([(js ''title'', JString (title n)),
                                      (js ''body'', JString (body n)),
                                      (js ''created'', JNumber (of_int (created n))),
                                      (js ''updated'', JNumber (of_int (updated n)))], t)"
    unfolding m2_def
    by (subst parse_members_more) (simp_all add: plain_keys parse_value_string p3)
  have p1: "parse_members m1 = Some ([(js ''id'', JString (id_note n)),
                                      (js ''title'', JString (title n)),
                                      (js ''body'', JString (body n)),
                                      (js ''created'', JNumber (of_int (created n))),
                                      (js ''updated'', JNumber (of_int (updated n)))], t)"
    unfolding m1_def
    by (subst parse_members_more) (simp_all add: plain_keys parse_value_string p2)
  obtain r1 where r1: "m1 = QUOTE # r1" by (simp add: m1_def)
  with p1 have "parse_members (QUOTE # r1) = Some
      ([(js ''id'', JString (id_note n)), (js ''title'', JString (title n)),
        (js ''body'', JString (body n)), (js ''created'', JNumber (of_int (created n))),
        (js ''updated'', JNumber (of_int (updated n)))], t)"
    by simp
  then have "parse_value (LBRACE # QUOTE # r1) = Some (note_json n, t)"
    by (subst parse_value.simps) (simp add: skip_ws_def is_ws_def note_json_def)
  with shape r1 show ?thesis by simp
qed

lemma stringify_note_hd: "\<exists>r. stringify_note n = LBRACE # r"
  by (simp add: stringify_note_def js_def)

lemma parse_elements_notes:
  "ns \<noteq> [] \<Longrightarrow>
   parse_elements (join_comma (map stringify_note ns) @ RBRACKET # t) = Some (map note_json ns, t)"
proof (induction ns rule: induct_list012)
  case 1
  then show ?case by simp
next
  case (2 n)
  show ?case
    by (subst parse_elements.simps) (simp add: parse_value_note skip_ws_def is_ws_def)
next
  case (3 n m ns)
  let ?rest = "join_comma (map stringify_note (m # ns)) @ RBRACKET # t"
  have "join_comma (map stringify_note (n # m # ns)) @ RBRACKET # t
        = stringify_note n @ COMMA # ?rest"
    by simp
  moreover have "parse_elements (stringify_note n @ COMMA # ?rest) = Some (map note_json (n # m # ns), t)"
    using 3
    by (subst parse_elements.simps) (simp add: parse_value_note skip_ws_def is_ws_def)
  ultimately show ?case by simp
qed

lemma parse_value_notes:
  "parse_value (JSON_stringify ns @ t) = Some (JArray (map note_json ns), t)"
proof (cases ns)
  case Nil
  then show ?thesis
    by (subst parse_value.simps) (simp add: JSON_stringify_def skip_ws_def is_ws_def)
next
  case (Cons n ns')
  obtain r where r: "stringify_note n = LBRACE # r" using stringify_note_hd by blast
  have "\<exists>r'. join_comma (map stringify_note ns) @ RBRACKET # t = LBRACE # r'"
    using Cons r by (cases ns') simp_all
  then obtain r' where r': "join_comma (map stringify_note ns) @ RBRACKET # t = LBRACE # r'" ..
  have "parse_elements (LBRACE # r') = Some (map note_json ns, t)"
    using parse_elements_notes [of ns t] Cons r' by simp
  then have "parse_value (LBRACKET # LBRACE # r') = Some (JArray (map note_json ns), t)"
    by (subst parse_value.simps) (simp add: skip_ws_def is_ws_def)
  with r' show ?thesis by (simp add: JSON_stringify_def)
qed

lemma JSON_parse_stringify:
  "JSON_parse (JSON_stringify ns) = Some (JArray (map note_json ns))"
  using parse_value_notes [of ns "[]"] by (simp add: JSON_parse_def skip_ws_def)

lemma as_note_note_json: "as_note (note_json n) = Some n"
  by (simp add: note_json_def note_keys_def property_def js_def)

lemma as_notes_note_json: "as_notes (JArray (map note_json ns)) = Some ns"
  by (induction ns) (simp_all add: as_note_note_json)

lemma JSON_stringify_nonempty: "JSON_stringify ns \<noteq> []"
  by (simp add: JSON_stringify_def)

section \<open>Lists, the current note and the example session\<close>

subsection \<open>Searching a list\<close>

lemma findIndex_None_iff: "findIndex P xs = None \<longleftrightarrow> (\<forall>x \<in> set xs. \<not> P x)"
  by (induction xs) auto

lemma find_findIndex:
  "List.find P xs = Some x \<Longrightarrow> \<exists>i. findIndex P xs = Some i \<and> i < length xs \<and> xs ! i = x"
  by (induction xs) (auto split: if_splits)

lemma find_Some_holds: "List.find P xs = Some x \<Longrightarrow> P x"
  by (induction xs) (auto split: if_splits)

lemma splice1_removes:
  assumes "distinct (map f xs)" and "findIndex (\<lambda>x. f x = k) xs = Some i"
  shows "k \<notin> f ` set (splice1 i xs)"
  using assms
proof (induction xs arbitrary: i)
  case Nil
  then show ?case by simp
next
  case (Cons x xs)
  show ?case
  proof (cases "f x = k")
    case True
    with Cons.prems show ?thesis by (auto simp: splice1_def)
  next
    case False
    with Cons.prems obtain j where j: "findIndex (\<lambda>x. f x = k) xs = Some j" "i = Suc j"
      by auto
    from Cons.prems(1) have "distinct (map f xs)" by simp
    from Cons.IH [OF this j(1)] False j(2) show ?thesis
      by (auto simp: splice1_def)
  qed
qed

lemma splice1_findIndex:
  "findIndex P xs = Some idx \<Longrightarrow>
   splice1 idx xs = takeWhile (\<lambda>x. \<not> P x) xs @ drop 1 (dropWhile (\<lambda>x. \<not> P x) xs)"
proof (induction xs arbitrary: idx)
  case Nil
  then show ?case by simp
next
  case (Cons x xs)
  show ?case
  proof (cases "P x")
    case True
    with Cons.prems show ?thesis by (simp add: splice1_def)
  next
    case False
    with Cons.prems obtain j where j: "findIndex P xs = Some j" "idx = Suc j" by auto
    from Cons.IH [OF j(1)] False j(2) show ?thesis by (simp add: splice1_def)
  qed
qed

lemma no_match_keeps:
  "findIndex P xs = None \<Longrightarrow>
   takeWhile (\<lambda>x. \<not> P x) xs @ drop 1 (dropWhile (\<lambda>x. \<not> P x) xs) = xs"
  by (induction xs) (auto split: if_splits)

subsection \<open>The current note\<close>

lemma currentNote_SomeD:
  assumes "currentNote s = Some cn"
  shows "currentNoteId s = Some (id_note cn)"
    and "id_note cn \<noteq> []"
    and "\<exists>idx. findIndex (\<lambda>n. Some (id_note n) = currentNoteId s) (notes s) = Some idx
           \<and> idx < length (notes s) \<and> notes s ! idx = cn"
proof -
  from assms have nf: "\<not> falsy (currentNoteId s)"
    and f: "List.find (\<lambda>n. Some (id_note n) = currentNoteId s) (notes s) = Some cn"
    by (auto simp: currentNote_def split: if_splits)
  from find_Some_holds [OF f] show c: "currentNoteId s = Some (id_note cn)" by simp
  with nf show "id_note cn \<noteq> []" by (simp add: falsy_def)
  from find_findIndex [OF f]
  show "\<exists>idx. findIndex (\<lambda>n. Some (id_note n) = currentNoteId s) (notes s) = Some idx
           \<and> idx < length (notes s) \<and> notes s ! idx = cn" .
qed

lemma currentNote_head:
  "id_note n \<noteq> [] \<Longrightarrow> notes s = n # ns \<Longrightarrow> currentNoteId s = Some (id_note n) \<Longrightarrow>
   currentNote s = Some n"
  by (simp add: currentNote_def falsy_def)

lemma number_toString_nonempty: "number_toString b n \<noteq> []"
  by (simp add: number_toString_def to_digits_nonempty)

lemma new_note_id_nonempty: "id_note (new_note c) \<noteq> []"
  by (simp add: new_note_def number_toString_nonempty)

lemma one_note_eval:
  "one_note = \<lparr>notes = [new_note first_input], currentNoteId = Some (id_note (new_note first_input)),
      dirty = False, storage = Some (JSON_stringify [new_note first_input]), triggered = True\<rparr>"
  by (simp add: one_note_def createNewNote_def setup_state_def persistNotes_def isClient_def
      browser_def Let_def)

lemma two_notes_eval:
  "two_notes = \<lparr>notes = [new_note second_input, new_note first_input],
      currentNoteId = Some (id_note (new_note second_input)),
      dirty = False,
      storage = Some (JSON_stringify [new_note second_input, new_note first_input]),
      triggered = True\<rparr>"
  by (simp add: two_notes_def one_note_eval createNewNote_def persistNotes_def isClient_def
      browser_def Let_def)

lemma example_ids:
  "id_note (new_note first_input) = js ''loyw3v28k3v9''"
  "id_note (new_note second_input) = js ''loyw3v2f0zq''"
  by (simp_all add: new_note_def first_input_def second_input_def number_toString_def
      to_digits.simps digit_char_def js_def)

lemma deleteNote_unfold:
  "deleteNote e True i s =
     (let s1 = (case findIndex (\<lambda>n. id_note n = i) (notes s) of
                  Some idx \<Rightarrow> persistNotes e (s\<lparr>notes := splice1 idx (notes s), triggered := True\<rparr>)
                | None \<Rightarrow> s)
      in if currentNoteId s = Some i
         then s1\<lparr>currentNoteId := (case notes s1 of [] \<Rightarrow> None | n # _ \<Rightarrow> Some (id_note n)),
                 dirty := False\<rparr>
         else s1)"
proof -
  have "currentNoteId (case findIndex (\<lambda>n. id_note n = i) (notes s) of
                  Some idx \<Rightarrow> persistNotes e (s\<lparr>notes := splice1 idx (notes s), triggered := True\<rparr>)
                | None \<Rightarrow> s) = currentNoteId s"
    by (simp add: persistNotes_def split: option.split)
  then show ?thesis by (simp add: deleteNote_def Let_def)
qed

lemma deleteNote_absent:
  assumes "i \<notin> id_note ` set (notes s)" and "currentNoteId s \<noteq> Some i"
  shows "deleteNote e a i s = s"
proof -
  from assms(1) have "findIndex (\<lambda>n. id_note n = i) (notes s) = None"
    by (auto simp: findIndex_None_iff)
  with assms(2) show ?thesis by (simp add: deleteNote_def)
qed

lemma deleteNote_result_absent:
  assumes "distinct (map id_note (notes s))"
  shows "i \<notin> id_note ` set (notes (deleteNote e True i s))"
proof (cases "findIndex (\<lambda>n. id_note n = i) (notes s)")
  case None
  then have "i \<notin> id_note ` set (notes s)" by (auto simp: findIndex_None_iff)
  with None show ?thesis by (simp add: deleteNote_def Let_def)
next
  case (Some idx)
  from splice1_removes [OF assms Some] Some show ?thesis
    by (simp add: deleteNote_def Let_def persistNotes_def)
qed

lemma deleteNote_result_current:
  assumes "i \<notin> id_note ` set (notes (deleteNote e True i s))"
  shows "currentNoteId (deleteNote e True i s) \<noteq> Some i"
  using assms
  by (auto simp: deleteNote_def Let_def persistNotes_def split: option.splits list.splits if_splits)

subsection \<open>Creating notes\<close>

lemma createNewNote_declined: "dirty s \<Longrightarrow> \<not> confirm c \<Longrightarrow> createNewNote e c s = s"
  by (simp add: createNewNote_def)

lemma createNewNote_ahead:
  assumes "dirty s \<longrightarrow> confirm c"
  shows "createNewNote e c s =
         (persistNotes e (s\<lparr>notes := new_note c # notes s, triggered := True\<rparr>))
           \<lparr>currentNoteId := Some (id_note (new_note c)), dirty := False\<rparr>"
  using assms by (auto simp: createNewNote_def Let_def)

lemma createNewNote_ahead_fields:
  assumes "dirty s \<longrightarrow> confirm c"
  shows "notes (createNewNote e c s) = new_note c # notes s"
    and "dirty (createNewNote e c s) = False"
    and "currentNoteId (createNewNote e c s) = Some (id_note (new_note c))"
    and "storage (createNewNote e c s) =
           (if isClient e then Some (JSON_stringify (new_note c # notes s)) else storage s)"
    and "triggered (createNewNote e c s) = True"
  by (simp_all add: createNewNote_ahead [OF assms] persistNotes_def)

lemma creates_notes:
  "notes (creates e cs s) =
   rev (map new_note (dropWhile (\<lambda>c. dirty s \<and> \<not> confirm c) cs)) @ notes s"
proof (induction cs arbitrary: s)
  case Nil
  show ?case by simp
next
  case (Cons c cs)
  show ?case
  proof (cases "dirty s \<and> \<not> confirm c")
    case True
    then have "createNewNote e c s = s" by (simp add: createNewNote_declined)
    with True Cons.IH [of s] show ?thesis by simp
  next
    case False
    then have ahead: "dirty s \<longrightarrow> confirm c" by simp
    let ?s' = "createNewNote e c s"
    have "notes (creates e cs ?s') = rev (map new_note cs) @ notes ?s'"
      using Cons.IH [of ?s'] by (simp add: createNewNote_ahead_fields(2) [OF ahead])
    moreover have "notes ?s' = new_note c # notes s"
      by (rule createNewNote_ahead_fields(1) [OF ahead])
    moreover have "dropWhile (\<lambda>c. dirty s \<and> \<not> confirm c) (c # cs) = c # cs"
      using False by auto
    ultimately show ?thesis by simp
  qed
qed

subsection \<open>Loading what was stored\<close>

lemma loadNotes_stringify:
  "isClient e \<Longrightarrow> loadNotes e (Some (JSON_stringify ns)) = JArray (map note_json ns)"
  by (simp add: loadNotes_def JSON_stringify_nonempty JSON_parse_stringify)


lemma onMounted_loaded:
  "onMounted browser (setup_state (Some (JSON_stringify ns))) = Mounted (loaded ns)"
proof -
  have c: "isClient browser" by (simp add: isClient_def browser_def)
  have "as_notes (loadNotes browser (storage (setup_state (Some (JSON_stringify ns))))) = Some ns"
    by (simp only: loadNotes_stringify [OF c] as_notes_note_json setup_state_def state.simps)
  then show ?thesis
    using c by (cases ns) (simp_all add: onMounted_def Let_def setup_state_def loaded_def falsy_def)
qed


lemma currentNote_one_note: "currentNote one_note = Some (new_note first_input)"
  by (rule currentNote_head [OF new_note_id_nonempty]) (simp_all add: one_note_eval)

lemma not_json_malformed: "JSON_parse (js ''not json'') = None"
  by (simp add: JSON_parse_def parse_value.simps skip_ws_def is_ws_def is_digit_def
      parse_literal_def js_def)

subsection \<open>Writing through the current note\<close>

lemma findIndex_update:
  "findIndex P xs = Some i \<Longrightarrow> P y \<Longrightarrow>
   findIndex P (xs[i := y]) = Some i \<and> List.find P (xs[i := y]) = Some y"
proof (induction xs arbitrary: i)
  case Nil
  then show ?case by simp
next
  case (Cons x xs)
  show ?case
  proof (cases "P x")
    case True
    with Cons.prems show ?thesis by simp
  next
    case False
    with Cons.prems obtain j where j: "findIndex P xs = Some j" "i = Suc j" by auto
    from Cons.IH [OF j(1) Cons.prems(2)] False j(2) show ?thesis by simp
  qed
qed

lemma write_current_Some:
  assumes "currentNote s = Some cn"
  shows "\<exists>idx. idx < length (notes s) \<and> notes s ! idx = cn
           \<and> write_current f s =
               s\<lparr>notes := (notes s)[idx := f cn], triggered := (triggered s \<or> f cn \<noteq> cn)\<rparr>
           \<and> (id_note (f cn) = id_note cn \<longrightarrow> currentNote (write_current f s) = Some (f cn))"
proof -
  from currentNote_SomeD [OF assms]
  obtain idx where c: "currentNoteId s = Some (id_note cn)" and ne: "id_note cn \<noteq> []"
    and i: "findIndex (\<lambda>n. Some (id_note n) = currentNoteId s) (notes s) = Some idx"
      "idx < length (notes s)" "notes s ! idx = cn"
    by blast
  have w: "write_current f s =
      s\<lparr>notes := (notes s)[idx := f cn], triggered := (triggered s \<or> f cn \<noteq> cn)\<rparr>"
    by (simp add: write_current_def assms i(1))
  have "id_note (f cn) = id_note cn \<longrightarrow> currentNote (write_current f s) = Some (f cn)"
  proof
    assume "id_note (f cn) = id_note cn"
    with c have "Some (id_note (f cn)) = currentNoteId s" by simp
    from findIndex_update [OF i(1), of "f cn", OF this]
    have "List.find (\<lambda>n. Some (id_note n) = currentNoteId s) ((notes s)[idx := f cn]) = Some (f cn)"
      by simp
    with c ne show "currentNote (write_current f s) = Some (f cn)"
      by (simp add: w currentNote_def falsy_def)
  qed
  with i(2,3) w show ?thesis by blast
qed

lemma write_current_frame:
  "storage (write_current f s) = storage s" "dirty (write_current f s) = dirty s"
  "currentNoteId (write_current f s) = currentNoteId s"
  "triggered s \<Longrightarrow> triggered (write_current f s)"
  "\<not> triggered (write_current f s) \<Longrightarrow> notes (write_current f s) = notes s"
proof -
  show "storage (write_current f s) = storage s" "dirty (write_current f s) = dirty s"
    "currentNoteId (write_current f s) = currentNoteId s"
    "triggered s \<Longrightarrow> triggered (write_current f s)"
    by (simp_all add: write_current_def split: option.split)
  show "\<not> triggered (write_current f s) \<Longrightarrow> notes (write_current f s) = notes s"
  proof (cases "currentNote s")
    case None
    then show ?thesis by (simp add: write_current_def)
  next
    case (Some cn)
    assume n: "\<not> triggered (write_current f s)"
    from write_current_Some [OF Some, of f]
    obtain idx where i: "notes s ! idx = cn"
      and w: "write_current f s =
               s\<lparr>notes := (notes s)[idx := f cn], triggered := (triggered s \<or> f cn \<noteq> cn)\<rparr>"
      by blast
    from n w have "f cn = cn" by simp
    moreover from i have "(notes s)[idx := cn] = notes s" by auto
    ultimately show ?thesis using w by simp
  qed
qed

lemma updateCurrentNote_Some:
  "currentNote s = Some cn \<Longrightarrow>
   updateCurrentNote now s = (write_current (\<lambda>n. n\<lparr>updated := now\<rparr>) s)\<lparr>dirty := True\<rparr>"
  by (simp add: updateCurrentNote_def)


lemma currentNote_dirty_update: "currentNote (s\<lparr>dirty := d\<rparr>) = currentNote s"
  by (simp add: currentNote_def)

lemma edit_effect:
  assumes "currentNote s = Some cn"
  shows "dirty (edit t b now s) = True"
    and "storage (edit t b now s) = storage s"
    and "currentNote (edit t b now s) =
           Some (cn\<lparr>title := (case t of None \<Rightarrow> title cn | Some x \<Rightarrow> x),
                    body := (case b of None \<Rightarrow> body cn | Some y \<Rightarrow> y),
                    updated := now\<rparr>)"
    and "\<not> triggered (edit t b now s) \<Longrightarrow> notes (edit t b now s) = notes s"
proof -
  define s1 where "s1 = (case t of None \<Rightarrow> s | Some x \<Rightarrow> write_current (\<lambda>n. n\<lparr>title := x\<rparr>) s)"
  define s2 where "s2 = (case b of None \<Rightarrow> s1 | Some y \<Rightarrow> write_current (\<lambda>n. n\<lparr>body := y\<rparr>) s1)"
  define c1 where "c1 = cn\<lparr>title := (case t of None \<Rightarrow> title cn | Some x \<Rightarrow> x)\<rparr>"
  define c2 where "c2 = c1\<lparr>body := (case b of None \<Rightarrow> body cn | Some y \<Rightarrow> y)\<rparr>"
  have e: "edit t b now s = updateCurrentNote now s2"
    unfolding edit_def Let_def s2_def s1_def by (rule refl)
  have cur1: "currentNote s1 = Some c1"
  proof (cases t)
    case None
    with assms show ?thesis by (simp add: s1_def c1_def)
  next
    case (Some x)
    from write_current_Some [OF assms, of "\<lambda>n. n\<lparr>title := x\<rparr>"] Some
    show ?thesis by (auto simp: s1_def c1_def)
  qed
  have cur2: "currentNote s2 = Some c2"
  proof (cases b)
    case None
    with cur1 show ?thesis by (simp add: s2_def c2_def c1_def)
  next
    case (Some y)
    from write_current_Some [OF cur1, of "\<lambda>n. n\<lparr>body := y\<rparr>"] Some
    show ?thesis by (auto simp: s2_def c2_def)
  qed
  have u: "edit t b now s = (write_current (\<lambda>n. n\<lparr>updated := now\<rparr>) s2)\<lparr>dirty := True\<rparr>"
    by (simp add: e updateCurrentNote_Some [OF cur2])
  show "dirty (edit t b now s) = True" by (simp add: u)
  have st1: "storage s1 = storage s"
    by (simp add: s1_def write_current_frame split: option.split)
  have st2: "storage s2 = storage s1"
    by (simp add: s2_def write_current_frame split: option.split)
  show "storage (edit t b now s) = storage s"
    by (simp add: u write_current_frame st1 st2)
  from write_current_Some [OF cur2, of "\<lambda>n. n\<lparr>updated := now\<rparr>"]
  have "currentNote (write_current (\<lambda>n. n\<lparr>updated := now\<rparr>) s2) = Some (c2\<lparr>updated := now\<rparr>)"
    by auto
  then have "currentNote (edit t b now s) = Some (c2\<lparr>updated := now\<rparr>)"
    by (simp only: u currentNote_dirty_update)
  then show "currentNote (edit t b now s) =
           Some (cn\<lparr>title := (case t of None \<Rightarrow> title cn | Some x \<Rightarrow> x),
                    body := (case b of None \<Rightarrow> body cn | Some y \<Rightarrow> y),
                    updated := now\<rparr>)"
    by (simp add: c2_def c1_def)
  show "notes (edit t b now s) = notes s" if quiet: "\<not> triggered (edit t b now s)"
  proof -
    let ?s3 = "write_current (\<lambda>n. n\<lparr>updated := now\<rparr>) s2"
    from quiet have q3: "\<not> triggered ?s3" by (simp add: u)
    then have n3: "notes ?s3 = notes s2" by (rule write_current_frame(5))
    from q3 have q2: "\<not> triggered s2" using write_current_frame(4) by blast
    then have n2: "notes s2 = notes s1"
      by (cases b) (simp_all add: s2_def write_current_frame(5))
    from q2 have q1: "\<not> triggered s1"
      by (cases b) (auto simp: s2_def dest: write_current_frame(4))
    then have n1: "notes s1 = notes s"
      by (cases t) (simp_all add: s1_def write_current_frame(5))
    from n1 n2 n3 show ?thesis by (simp add: u)
  qed
qed

lemma flush_triggered:
  "isClient e \<Longrightarrow> triggered s \<Longrightarrow> storage (flush e s) = Some (JSON_stringify (notes s))"
  by (simp add: flush_def persistNotes_def isClient_def)

lemma JSON_stringify_inj: "JSON_stringify xs = JSON_stringify ys \<Longrightarrow> xs = ys"
proof -
  assume "JSON_stringify xs = JSON_stringify ys"
  then have "as_notes (the (JSON_parse (JSON_stringify xs))) = as_notes (the (JSON_parse (JSON_stringify ys)))"
    by simp
  then show "xs = ys"
    by (simp only: JSON_parse_stringify option.sel as_notes_note_json option.inject)
qed


lemma edit_currentNoteId:
  assumes "currentNote s = Some cn"
  shows "currentNoteId (edit t b now s) = currentNoteId s"
proof -
  from edit_effect(3) [OF assms, of t b now]
  obtain c' where c': "currentNote (edit t b now s) = Some c'" "id_note c' = id_note cn"
    by simp
  from currentNote_SomeD(1) [OF c'(1)] currentNote_SomeD(1) [OF assms] c'(2)
  show ?thesis by simp
qed

lemma edit_changes_notes:
  assumes "currentNote s = Some cn" and "currentNote (edit t b now s) \<noteq> Some cn"
  shows "notes (edit t b now s) \<noteq> notes s"
proof
  assume "notes (edit t b now s) = notes s"
  with edit_currentNoteId [OF assms(1), of t b now]
  have "currentNote (edit t b now s) = currentNote s" by (simp add: currentNote_def)
  with assms show False by simp
qed

lemma write_current_exact:
  assumes "currentNote s = Some cn"
    and "findIndex (\<lambda>n. id_note n = id_note cn) (notes s) = Some idx"
    and "id_note (f cn) = id_note cn"
  shows "write_current f s =
           s\<lparr>notes := (notes s)[idx := f cn], triggered := (triggered s \<or> f cn \<noteq> cn)\<rparr>"
    and "currentNote (write_current f s) = Some (f cn)"
    and "findIndex (\<lambda>n. id_note n = id_note cn) (notes (write_current f s)) = Some idx"
proof -
  from currentNote_SomeD [OF assms(1)]
  have c: "currentNoteId s = Some (id_note cn)" and ne: "id_note cn \<noteq> []" by auto
  from assms(2) have i: "findIndex (\<lambda>n. Some (id_note n) = currentNoteId s) (notes s) = Some idx"
    by (simp add: c)
  show w: "write_current f s =
      s\<lparr>notes := (notes s)[idx := f cn], triggered := (triggered s \<or> f cn \<noteq> cn)\<rparr>"
    by (simp add: write_current_def assms(1) i)
  from findIndex_update [OF assms(2), of "f cn"] assms(3)
  have u: "findIndex (\<lambda>n. id_note n = id_note cn) ((notes s)[idx := f cn]) = Some idx"
    "List.find (\<lambda>n. id_note n = id_note cn) ((notes s)[idx := f cn]) = Some (f cn)"
    by simp_all
  from u(1) show "findIndex (\<lambda>n. id_note n = id_note cn) (notes (write_current f s)) = Some idx"
    by (simp add: w)
  from u(2) c ne show "currentNote (write_current f s) = Some (f cn)"
    by (simp add: w currentNote_def falsy_def)
qed

lemma edited_eq_iff:
  "edited t b now cn = cn \<longleftrightarrow>
     (case t of None \<Rightarrow> True | Some x \<Rightarrow> x = title cn)
   \<and> (case b of None \<Rightarrow> True | Some y \<Rightarrow> y = body cn) \<and> now = updated cn"
  by (cases cn) (auto simp: edited_def split: option.splits)

lemma edit_exact:
  assumes "currentNote s = Some cn"
    and "findIndex (\<lambda>n. id_note n = id_note cn) (notes s) = Some idx"
  shows "edit t b now s =
           s\<lparr>notes := (notes s)[idx := edited t b now cn],
             triggered := (triggered s \<or> edited t b now cn \<noteq> cn),
             dirty := True\<rparr>"
proof -
  define c1 where "c1 = cn\<lparr>title := (case t of None \<Rightarrow> title cn | Some x \<Rightarrow> x)\<rparr>"
  define c2 where "c2 = c1\<lparr>body := (case b of None \<Rightarrow> body cn | Some y \<Rightarrow> y)\<rparr>"
  define s1 where "s1 = (case t of None \<Rightarrow> s | Some x \<Rightarrow> write_current (\<lambda>n. n\<lparr>title := x\<rparr>) s)"
  define s2 where "s2 = (case b of None \<Rightarrow> s1 | Some y \<Rightarrow> write_current (\<lambda>n. n\<lparr>body := y\<rparr>) s1)"
  have same: "(notes s)[idx := cn] = notes s"
    using currentNote_SomeD(3) [OF assms(1)] assms(2) currentNote_SomeD(1) [OF assms(1)]
    by auto
  have id1: "id_note c1 = id_note cn" by (simp add: c1_def)
  have id2: "id_note c2 = id_note cn" by (simp add: c2_def c1_def)
  have e: "edit t b now s = updateCurrentNote now s2"
    unfolding edit_def Let_def s2_def s1_def by (rule refl)
  have s1: "s1 = s\<lparr>notes := (notes s)[idx := c1], triggered := (triggered s \<or> c1 \<noteq> cn)\<rparr>"
    and cur1: "currentNote s1 = Some c1"
    and i1: "findIndex (\<lambda>n. id_note n = id_note cn) (notes s1) = Some idx"
  proof -
    show "s1 = s\<lparr>notes := (notes s)[idx := c1], triggered := (triggered s \<or> c1 \<noteq> cn)\<rparr>"
    proof (cases t)
      case None
      then have "c1 = cn" by (simp add: c1_def)
      with None same show ?thesis by (simp add: s1_def)
    next
      case (Some x)
      with write_current_exact(1) [OF assms, of "\<lambda>n. n\<lparr>title := x\<rparr>"]
      show ?thesis by (simp add: s1_def c1_def)
    qed
    show "currentNote s1 = Some c1"
    proof (cases t)
      case None
      with assms(1) show ?thesis by (simp add: s1_def c1_def)
    next
      case (Some x)
      with write_current_exact(2) [OF assms, of "\<lambda>n. n\<lparr>title := x\<rparr>"]
      show ?thesis by (simp add: s1_def c1_def)
    qed
    show "findIndex (\<lambda>n. id_note n = id_note cn) (notes s1) = Some idx"
    proof (cases t)
      case None
      with assms(2) show ?thesis by (simp add: s1_def)
    next
      case (Some x)
      with write_current_exact(3) [OF assms, of "\<lambda>n. n\<lparr>title := x\<rparr>"]
      show ?thesis by (simp add: s1_def)
    qed
  qed
  from i1 id1 have i1': "findIndex (\<lambda>n. id_note n = id_note c1) (notes s1) = Some idx" by simp
  have same1: "(notes s1)[idx := c1] = notes s1"
    by (simp add: s1)
  have s2: "s2 = s1\<lparr>notes := (notes s1)[idx := c2], triggered := (triggered s1 \<or> c2 \<noteq> c1)\<rparr>"
    and cur2: "currentNote s2 = Some c2"
    and i2: "findIndex (\<lambda>n. id_note n = id_note c1) (notes s2) = Some idx"
  proof -
    show "s2 = s1\<lparr>notes := (notes s1)[idx := c2], triggered := (triggered s1 \<or> c2 \<noteq> c1)\<rparr>"
    proof (cases b)
      case None
      then have "c2 = c1" by (simp add: c2_def c1_def)
      with None same1 show ?thesis by (simp add: s2_def)
    next
      case (Some y)
      with write_current_exact(1) [OF cur1 i1', of "\<lambda>n. n\<lparr>body := y\<rparr>"]
      show ?thesis by (simp add: s2_def c2_def)
    qed
    show "currentNote s2 = Some c2"
    proof (cases b)
      case None
      with cur1 show ?thesis by (simp add: s2_def c2_def c1_def)
    next
      case (Some y)
      with write_current_exact(2) [OF cur1 i1', of "\<lambda>n. n\<lparr>body := y\<rparr>"]
      show ?thesis by (simp add: s2_def c2_def)
    qed
    show "findIndex (\<lambda>n. id_note n = id_note c1) (notes s2) = Some idx"
    proof (cases b)
      case None
      with i1' show ?thesis by (simp add: s2_def)
    next
      case (Some y)
      with write_current_exact(3) [OF cur1 i1', of "\<lambda>n. n\<lparr>body := y\<rparr>"]
      show ?thesis by (simp add: s2_def)
    qed
  qed
  from i2 id1 id2 have i2': "findIndex (\<lambda>n. id_note n = id_note c2) (notes s2) = Some idx" by simp
  have c3: "c2\<lparr>updated := now\<rparr> = edited t b now cn"
    by (simp add: edited_def c2_def c1_def)
  have u: "edit t b now s = (write_current (\<lambda>n. n\<lparr>updated := now\<rparr>) s2)\<lparr>dirty := True\<rparr>"
    by (simp add: e updateCurrentNote_Some [OF cur2])
  have id3: "id_note (c2\<lparr>updated := now\<rparr>) = id_note c2" by simp
  from write_current_exact(1) [OF cur2 i2', of "\<lambda>n. n\<lparr>updated := now\<rparr>", OF id3]
  have s3: "write_current (\<lambda>n. n\<lparr>updated := now\<rparr>) s2 =
      s2\<lparr>notes := (notes s2)[idx := edited t b now cn],
         triggered := (triggered s2 \<or> edited t b now cn \<noteq> c2)\<rparr>"
    by (simp add: c3)
  have trig: "(((triggered s \<or> c1 \<noteq> cn) \<or> c2 \<noteq> c1) \<or> edited t b now cn \<noteq> c2)
              = (triggered s \<or> edited t b now cn \<noteq> cn)"
    by (cases cn) (auto simp: edited_def c2_def c1_def split: option.splits)
  have s2': "s2 = s\<lparr>notes := (notes s)[idx := c2],
                    triggered := ((triggered s \<or> c1 \<noteq> cn) \<or> c2 \<noteq> c1)\<rparr>"
    by (simp add: s2 s1)
  have "edit t b now s =
          s2\<lparr>notes := (notes s2)[idx := edited t b now cn],
             triggered := (triggered s2 \<or> edited t b now cn \<noteq> c2),
             dirty := True\<rparr>"
    by (simp only: u s3)
  also have "\<dots> = s\<lparr>notes := (notes s)[idx := edited t b now cn],
             triggered := (((triggered s \<or> c1 \<noteq> cn) \<or> c2 \<noteq> c1) \<or> edited t b now cn \<noteq> c2),
             dirty := True\<rparr>"
    by (subst (1 2 3) s2') simp
  finally show ?thesis by (simp only: trig)
qed

lemma flush_storage:
  "storage (flush e s) =
     (if triggered s \<and> isClient e then Some (JSON_stringify (notes s)) else storage s)"
  by (simp add: flush_def persistNotes_def isClient_def)

lemma isClient_browser: "isClient browser"
  by (simp add: isClient_def browser_def)

lemma title_first: "title (new_note first_input) = []"
  by (simp add: new_note_def)

section \<open>Properties of the operations\<close>

text \<open>
  C3, as the code has it. With the deletion confirmed and \<open>i\<close> the current id,
  \<^verbatim>\<open>deleteNote\<close> removes the first note whose id is \<open>i\<close> (none, if no note has
  it), makes the id of the first remaining note the current id, or none when no note
  remains, and clears \<^verbatim>\<open>dirty\<close>; it stores the remaining notes when a note was
  removed and a client is present. The derived current note is then that first
  remaining note, unless its id is the empty string: the empty string fails the test
  on \<^verbatim>\<open>currentNoteId\<close> and counts as no selection. Deleting the only note while
  it is current leaves no notes, no current id and \<^verbatim>\<open>dirty\<close> cleared.
\<close>

theorem deleteNote_current:
  assumes "currentNoteId s = Some i"
  shows "deleteNote e True i s =
           (let rest = takeWhile (\<lambda>n. id_note n \<noteq> i) (notes s)
                         @ drop 1 (dropWhile (\<lambda>n. id_note n \<noteq> i) (notes s));
                found = (i \<in> id_note ` set (notes s))
            in s\<lparr>notes := rest,
                 currentNoteId := (case rest of [] \<Rightarrow> None | n # _ \<Rightarrow> Some (id_note n)),
                 dirty := False,
                 storage := (if found \<and> isClient e then Some (JSON_stringify rest) else storage s),
                 triggered := (triggered s \<or> found)\<rparr>)
       \<and> currentNote (deleteNote e True i s) =
           (case notes (deleteNote e True i s) of
              [] \<Rightarrow> None
            | n # _ \<Rightarrow> if id_note n = [] then None else Some n)
       \<and> (\<forall>n. notes s = [n] \<and> id_note n = i \<longrightarrow>
            notes (deleteNote e True i s) = [] \<and> currentNoteId (deleteNote e True i s) = None
            \<and> dirty (deleteNote e True i s) = False)"
proof -
  let ?s' = "deleteNote e True i s"
  define rest where "rest = takeWhile (\<lambda>n. id_note n \<noteq> i) (notes s)
                         @ drop 1 (dropWhile (\<lambda>n. id_note n \<noteq> i) (notes s))"
  define found where "found = (i \<in> id_note ` set (notes s))"
  define s1 where "s1 = (case findIndex (\<lambda>n. id_note n = i) (notes s) of
                  Some idx \<Rightarrow> persistNotes e (s\<lparr>notes := splice1 idx (notes s), triggered := True\<rparr>)
                | None \<Rightarrow> s)"
  have s': "?s' = s1\<lparr>currentNoteId := (case notes s1 of [] \<Rightarrow> None | n # _ \<Rightarrow> Some (id_note n)),
                 dirty := False\<rparr>"
    using assms by (simp add: deleteNote_unfold s1_def Let_def)
  have s1: "s1 = s\<lparr>notes := rest,
                   storage := (if found \<and> isClient e then Some (JSON_stringify rest) else storage s),
                   triggered := (triggered s \<or> found)\<rparr>"
  proof (cases "findIndex (\<lambda>n. id_note n = i) (notes s)")
    case None
    then have "\<not> found" by (auto simp: found_def findIndex_None_iff)
    moreover from None have "rest = notes s" unfolding rest_def by (rule no_match_keeps)
    ultimately show ?thesis using None by (simp add: s1_def)
  next
    case (Some idx)
    have "found"
    proof (rule ccontr)
      assume "\<not> found"
      then have "findIndex (\<lambda>n. id_note n = i) (notes s) = None"
        by (auto simp: found_def findIndex_None_iff)
      with Some show False by simp
    qed
    moreover from Some have "splice1 idx (notes s) = rest"
      unfolding rest_def by (rule splice1_findIndex)
    ultimately show ?thesis using Some by (simp add: s1_def persistNotes_def)
  qed
  have whole: "?s' = (let rest = takeWhile (\<lambda>n. id_note n \<noteq> i) (notes s)
                         @ drop 1 (dropWhile (\<lambda>n. id_note n \<noteq> i) (notes s));
                found = (i \<in> id_note ` set (notes s))
            in s\<lparr>notes := rest,
                 currentNoteId := (case rest of [] \<Rightarrow> None | n # _ \<Rightarrow> Some (id_note n)),
                 dirty := False,
                 storage := (if found \<and> isClient e then Some (JSON_stringify rest) else storage s),
                 triggered := (triggered s \<or> found)\<rparr>)"
    unfolding Let_def rest_def [symmetric] found_def [symmetric]
    by (simp add: s' s1)
  have cur: "currentNoteId ?s' = (case notes ?s' of [] \<Rightarrow> None | n # _ \<Rightarrow> Some (id_note n))"
    by (simp add: s')
  have derived: "currentNote ?s' =
      (case notes ?s' of [] \<Rightarrow> None | n # _ \<Rightarrow> if id_note n = [] then None else Some n)"
  proof (cases "notes ?s'")
    case Nil
    with cur show ?thesis by (simp add: currentNote_def falsy_def)
  next
    case (Cons n ns)
    with cur have "currentNoteId ?s' = Some (id_note n)" by simp
    with Cons show ?thesis by (simp add: currentNote_def falsy_def)
  qed
  have only: "\<forall>n. notes s = [n] \<and> id_note n = i \<longrightarrow>
      notes ?s' = [] \<and> currentNoteId ?s' = None \<and> dirty ?s' = False"
  proof (intro allI impI)
    fix n assume n: "notes s = [n] \<and> id_note n = i"
    then have "rest = []" by (simp add: rest_def)
    then show "notes ?s' = [] \<and> currentNoteId ?s' = None \<and> dirty ?s' = False"
      by (simp add: s' s1)
  qed
  show ?thesis
    using whole derived only by (intro conjI)
qed

theorem deleteNote_current_witness:
  "currentNoteId two_notes = Some (id_note (new_note second_input))
   \<and> notes two_notes = [new_note second_input, new_note first_input]
   \<and> notes (deleteNote browser True (id_note (new_note second_input)) two_notes)
       = [new_note first_input]
   \<and> currentNoteId (deleteNote browser True (id_note (new_note second_input)) two_notes)
       = Some (id_note (new_note first_input))
   \<and> currentNote (deleteNote browser True (id_note (new_note second_input)) two_notes)
       = Some (new_note first_input)
   \<and> dirty (deleteNote browser True (id_note (new_note second_input)) two_notes) = False"
proof -
  let ?i = "id_note (new_note second_input)"
  let ?s' = "deleteNote browser True ?i two_notes"
  have h: "currentNoteId two_notes = Some ?i" by (simp add: two_notes_eval)
  have n: "notes two_notes = [new_note second_input, new_note first_input]"
    by (simp add: two_notes_eval)
  have ne: "id_note (new_note first_input) \<noteq> ?i" by (simp add: example_ids js_def)
  note t = deleteNote_current [OF h, of browser]
  from t [THEN conjunct1] ne
  have s': "notes ?s' = [new_note first_input]"
    "currentNoteId ?s' = Some (id_note (new_note first_input))" "dirty ?s' = False"
    by (simp_all add: Let_def two_notes_eval)
  from t [THEN conjunct2, THEN conjunct1] s'(1)
  have "currentNote ?s' = Some (new_note first_input)"
    by (simp add: new_note_id_nonempty)
  with h n s' show ?thesis by (intro conjI)
qed

text \<open>
  C3, as stated, fails where the first remaining note has the empty string as its id.
  A store can hold such a note: mounting over it gives a state with two notes, the
  first one current; after deleting the first, one note remains and yet there is no
  derived current note.
\<close>

theorem deleteNote_current_empty_id:
  "onMounted browser (setup_state (Some (JSON_stringify
        [plain_note (js ''a'') (js ''first''), plain_note [] (js ''second'')])))
     = Mounted (loaded [plain_note (js ''a'') (js ''first''), plain_note [] (js ''second'')])
   \<and> currentNoteId (loaded [plain_note (js ''a'') (js ''first''), plain_note [] (js ''second'')])
       = Some (js ''a'')
   \<and> notes (deleteNote browser True (js ''a'')
        (loaded [plain_note (js ''a'') (js ''first''), plain_note [] (js ''second'')]))
       = [plain_note [] (js ''second'')]
   \<and> currentNote (deleteNote browser True (js ''a'')
        (loaded [plain_note (js ''a'') (js ''first''), plain_note [] (js ''second'')]))
       = None"
  by (simp add: onMounted_loaded)
     (simp add: loaded_def plain_note_def deleteNote_def Let_def splice1_def persistNotes_def
        currentNote_def falsy_def js_def)

text \<open>
  C4. When \<^verbatim>\<open>dirty\<close> is set and the dialog is declined, \<^verbatim>\<open>selectNote\<close> returns
  at once: the notes, the current id, the flag and everything else are as before.
\<close>

theorem selectNote_declined: "dirty s \<Longrightarrow> selectNote False i s = s"
  by (simp add: selectNote_def)

theorem selectNote_declined_witness:
  "dirty ((setup_state None)\<lparr>dirty := True\<rparr>) \<and>
   selectNote False [0x61] ((setup_state None)\<lparr>dirty := True\<rparr>) = (setup_state None)\<lparr>dirty := True\<rparr>"
  using selectNote_declined [of "(setup_state None)\<lparr>dirty := True\<rparr>" "[0x61]"]
  by simp

text \<open>
  C6. When no note has the id \<open>i\<close>, the derived current note is none as soon as \<open>i\<close> is
  the current id; in particular after a \<^verbatim>\<open>selectNote\<close> of \<open>i\<close> that goes ahead
  (\<^verbatim>\<open>dirty\<close> unset, or the dialog accepted).
\<close>

theorem currentNote_of_absent_id:
  "i \<notin> id_note ` set (notes s) \<Longrightarrow>
     (currentNoteId s = Some i \<longrightarrow> currentNote s = None)
   \<and> (dirty s \<longrightarrow> answer \<longrightarrow> currentNote (selectNote answer i s) = None)
   \<and> (\<not> dirty s \<longrightarrow> currentNote (selectNote answer i s) = None)"
  by (auto simp: currentNote_def selectNote_def find_None_iff)

theorem currentNote_of_absent_id_witness:
  "js ''zz'' \<notin> id_note ` set (notes one_note)
   \<and> currentNote (selectNote True (js ''zz'') one_note) = None
   \<and> currentNote (one_note\<lparr>currentNoteId := Some (js ''zz'')\<rparr>) = None"
proof -
  have h: "js ''zz'' \<notin> id_note ` set (notes one_note)"
    by (simp add: one_note_eval new_note_def first_input_def number_toString_def
        to_digits.simps digit_char_def js_def)
  have h': "js ''zz'' \<notin> id_note ` set (notes (one_note\<lparr>currentNoteId := Some (js ''zz'')\<rparr>))"
    using h by simp
  from currentNote_of_absent_id [OF h, of True]
    currentNote_of_absent_id [OF h', of True] h
  show ?thesis by (simp add: one_note_eval)
qed

text \<open>
  C9, as the code has it. In a collection whose ids are pairwise distinct (the
  uniqueness invariant of the data model, which the code does not enforce on what it
  loads), a confirmed \<^verbatim>\<open>deleteNote\<close> of \<open>i\<close> done twice gives the state that
  the first call gave; and deleting an id that no note has changes neither the notes nor
  the store.
\<close>

theorem deleteNote_idempotent:
  assumes "distinct (map id_note (notes s))"
  shows "deleteNote e True i (deleteNote e True i s) = deleteNote e True i s
       \<and> (i \<notin> id_note ` set (notes s) \<longrightarrow>
            notes (deleteNote e True i s) = notes s \<and> storage (deleteNote e True i s) = storage s)"
proof -
  have absent: "i \<notin> id_note ` set (notes (deleteNote e True i s))"
    using assms by (rule deleteNote_result_absent)
  then have "currentNoteId (deleteNote e True i s) \<noteq> Some i"
    by (rule deleteNote_result_current)
  with absent have twice: "deleteNote e True i (deleteNote e True i s) = deleteNote e True i s"
    by (rule deleteNote_absent)
  have "i \<notin> id_note ` set (notes s) \<longrightarrow>
          notes (deleteNote e True i s) = notes s \<and> storage (deleteNote e True i s) = storage s"
  proof
    assume "i \<notin> id_note ` set (notes s)"
    then have "findIndex (\<lambda>n. id_note n = i) (notes s) = None"
      by (auto simp: findIndex_None_iff)
    then show "notes (deleteNote e True i s) = notes s \<and> storage (deleteNote e True i s) = storage s"
      by (simp add: deleteNote_def Let_def)
  qed
  with twice show ?thesis by simp
qed

theorem deleteNote_idempotent_witness:
  "distinct (map id_note (notes one_note))
   \<and> deleteNote browser True (id_note (new_note first_input))
        (deleteNote browser True (id_note (new_note first_input)) one_note)
      = deleteNote browser True (id_note (new_note first_input)) one_note
   \<and> notes (deleteNote browser True (id_note (new_note first_input)) one_note) = []"
proof -
  have h: "distinct (map id_note (notes one_note))" by (simp add: one_note_eval)
  from deleteNote_idempotent [OF h, of browser "id_note (new_note first_input)"] h
  show ?thesis
    by (simp add: one_note_eval deleteNote_def splice1_def persistNotes_def Let_def)
qed

text \<open>
  C9, as stated, fails on a collection in which two notes share an id. A store can hold
  such a collection; after mounting over it, the first delete removes the first of the
  two notes and the second delete removes the other.
\<close>

theorem deleteNote_twice_duplicate_ids:
  "onMounted browser (setup_state (Some (JSON_stringify
        [plain_note (js ''d'') (js ''one''), plain_note (js ''d'') (js ''two''),
         plain_note (js ''b'') []])))
     = Mounted (loaded [plain_note (js ''d'') (js ''one''), plain_note (js ''d'') (js ''two''),
         plain_note (js ''b'') []])
   \<and> notes (deleteNote browser True (js ''d'')
        (loaded [plain_note (js ''d'') (js ''one''), plain_note (js ''d'') (js ''two''),
                 plain_note (js ''b'') []]))
       = [plain_note (js ''d'') (js ''two''), plain_note (js ''b'') []]
   \<and> notes (deleteNote browser True (js ''d'') (deleteNote browser True (js ''d'')
        (loaded [plain_note (js ''d'') (js ''one''), plain_note (js ''d'') (js ''two''),
                 plain_note (js ''b'') []])))
       = [plain_note (js ''b'') []]
   \<and> deleteNote browser True (js ''d'') (deleteNote browser True (js ''d'')
        (loaded [plain_note (js ''d'') (js ''one''), plain_note (js ''d'') (js ''two''),
                 plain_note (js ''b'') []]))
       \<noteq> deleteNote browser True (js ''d'')
        (loaded [plain_note (js ''d'') (js ''one''), plain_note (js ''d'') (js ''two''),
                 plain_note (js ''b'') []])"
proof -
  let ?s = "loaded [plain_note (js ''d'') (js ''one''), plain_note (js ''d'') (js ''two''),
                 plain_note (js ''b'') []]"
  have once: "notes (deleteNote browser True (js ''d'') ?s)
       = [plain_note (js ''d'') (js ''two''), plain_note (js ''b'') []]"
    by (simp add: loaded_def plain_note_def deleteNote_def Let_def splice1_def persistNotes_def)
  have twice: "notes (deleteNote browser True (js ''d'') (deleteNote browser True (js ''d'') ?s))
       = [plain_note (js ''b'') []]"
    by (simp add: loaded_def plain_note_def deleteNote_def Let_def splice1_def persistNotes_def)
  from once twice have "deleteNote browser True (js ''d'') (deleteNote browser True (js ''d'') ?s)
       \<noteq> deleteNote browser True (js ''d'') ?s"
    by (metis list.inject list.distinct(1))
  with once twice onMounted_loaded show ?thesis by (intro conjI) auto
qed

text \<open>
  C10. When the derived current note exists, the \<^verbatim>\<open>findIndex\<close> of
  \<^verbatim>\<open>saveCurrentNote\<close> finds its id, so the branch for \<open>-1\<close> is not taken: the call
  writes the note at its index, runs \<^verbatim>\<open>persistNotes\<close> and clears \<^verbatim>\<open>dirty\<close>;
  with a client the store then holds the text of the notes.
\<close>

theorem save_index_found:
  assumes "currentNote s = Some cn"
  shows "findIndex (\<lambda>n. id_note n = id_note cn) (notes s) \<noteq> None
       \<and> saveCurrentNote e s = (persistNotes e (s\<lparr>triggered := True\<rparr>))\<lparr>dirty := False\<rparr>
       \<and> dirty (saveCurrentNote e s) = False
       \<and> (isClient e \<longrightarrow> storage (saveCurrentNote e s) = Some (JSON_stringify (notes s)))"
proof -
  from currentNote_SomeD [OF assms]
  obtain idx where c: "currentNoteId s = Some (id_note cn)"
    and i: "findIndex (\<lambda>n. Some (id_note n) = currentNoteId s) (notes s) = Some idx"
      "idx < length (notes s)" "notes s ! idx = cn"
    by blast
  from i(1) have idx: "findIndex (\<lambda>n. id_note n = id_note cn) (notes s) = Some idx"
    by (simp add: c)
  from i(3) have same: "(notes s)[idx := cn] = notes s" by auto
  have save: "saveCurrentNote e s = (persistNotes e (s\<lparr>triggered := True\<rparr>))\<lparr>dirty := False\<rparr>"
    by (simp add: saveCurrentNote_def assms idx same)
  show ?thesis
    by (simp add: idx save persistNotes_def)
qed

theorem save_index_found_witness:
  "currentNote one_note = Some (new_note first_input)
   \<and> findIndex (\<lambda>n. id_note n = id_note (new_note first_input)) (notes one_note) = Some 0
   \<and> dirty (saveCurrentNote browser one_note) = False
   \<and> storage (saveCurrentNote browser one_note) = Some (JSON_stringify (notes one_note))"
proof -
  have h: "currentNote one_note = Some (new_note first_input)"
    by (rule currentNote_head [OF new_note_id_nonempty]) (simp_all add: one_note_eval)
  have b: "isClient browser" by (simp add: isClient_def browser_def)
  from save_index_found [OF h, of browser] h b show ?thesis
    by (simp add: one_note_eval persistNotes_def)
qed

text \<open>
  C7. Starting from a state without notes, a run of \<^verbatim>\<open>createNewNote\<close> calls leaves
  the notes in the reverse of the order of creation, the newest first. Only a call made
  while \<^verbatim>\<open>dirty\<close> is set and declined in the dialog creates nothing, and that can
  happen only before the first note of the run is created; when \<^verbatim>\<open>dirty\<close> is unset
  at the start, every call creates its note.
\<close>

theorem creates_newest_first:
  assumes "notes s = []"
  shows "notes (creates e cs s) =
           rev (map new_note (dropWhile (\<lambda>c. dirty s \<and> \<not> confirm c) cs))
       \<and> (\<not> dirty s \<longrightarrow> notes (creates e cs s) = rev (map new_note cs))
       \<and> (\<not> dirty s \<longrightarrow> cs \<noteq> [] \<longrightarrow> hd (notes (creates e cs s)) = new_note (last cs))"
proof -
  have all: "notes (creates e cs s) =
           rev (map new_note (dropWhile (\<lambda>c. dirty s \<and> \<not> confirm c) cs))"
    using assms by (simp add: creates_notes)
  have clean: "\<not> dirty s \<longrightarrow> notes (creates e cs s) = rev (map new_note cs)"
    by (simp add: all)
  have "\<not> dirty s \<longrightarrow> cs \<noteq> [] \<longrightarrow> hd (notes (creates e cs s)) = new_note (last cs)"
    by (simp add: all hd_rev last_map)
  with all clean show ?thesis by (intro conjI)
qed

theorem creates_newest_first_witness:
  "notes (setup_state None) = []
   \<and> notes (creates browser [first_input, second_input] (setup_state None))
       = [new_note second_input, new_note first_input]"
proof -
  have h: "notes (setup_state None) = []" by (simp add: setup_state_def)
  have d: "\<not> dirty (setup_state None)" by (simp add: setup_state_def)
  note t = creates_newest_first [OF h, of browser "[first_input, second_input]"]
  from t [THEN conjunct2, THEN conjunct1] d h show ?thesis by simp
qed



text \<open>
  C5, as the code has it. When the key is absent, or holds the empty string, or holds a
  text that \<^verbatim>\<open>JSON.parse\<close> rejects, \<^verbatim>\<open>loadNotes\<close> returns the empty array
  and the \<^verbatim>\<open>onMounted\<close> hook completes with no notes; nothing is raised. The text
  \<^verbatim>\<open>not json\<close> is such a text. A text that \<^verbatim>\<open>JSON.parse\<close> accepts is
  returned as parsed, whatever its shape.
\<close>

theorem load_absent_or_malformed:
  assumes "st = None \<or> st = Some [] \<or> (\<exists>t. st = Some t \<and> JSON_parse t = None)"
  shows "loadNotes e st = JArray []
       \<and> (\<exists>s'. onMounted e (s\<lparr>storage := st\<rparr>) = Mounted s' \<and> (isClient e \<longrightarrow> notes s' = []))
       \<and> (\<exists>s'. onMounted e (setup_state st) = Mounted s' \<and> notes s' = [] \<and> currentNoteId s' = None)
       \<and> (\<forall>t v. isClient e \<and> t \<noteq> [] \<and> JSON_parse t = Some v \<longrightarrow> loadNotes e (Some t) = v)"
proof -
  have l: "loadNotes e st = JArray []"
    using assms by (auto simp: loadNotes_def)
  have a: "\<exists>s'. onMounted e (s\<lparr>storage := st\<rparr>) = Mounted s' \<and> (isClient e \<longrightarrow> notes s' = [])"
    by (simp add: onMounted_def l)
  have b: "\<exists>s'. onMounted e (setup_state st) = Mounted s' \<and> notes s' = [] \<and> currentNoteId s' = None"
  proof -
    have "storage (setup_state st) = st" by (simp add: setup_state_def)
    then show ?thesis by (simp add: onMounted_def l) (simp add: setup_state_def)
  qed
  have c: "\<forall>t v. isClient e \<and> t \<noteq> [] \<and> JSON_parse t = Some v \<longrightarrow> loadNotes e (Some t) = v"
    by (simp add: loadNotes_def)
  from l a b c show ?thesis by (intro conjI)
qed

theorem load_absent_or_malformed_witness:
  "JSON_parse (js ''not json'') = None
   \<and> loadNotes browser (Some (js ''not json'')) = JArray []
   \<and> (\<exists>s'. onMounted browser (setup_state (Some (js ''not json''))) = Mounted s' \<and> notes s' = []
          \<and> currentNoteId s' = None)"
proof -
  have h: "Some (js ''not json'') = None \<or> Some (js ''not json'') = Some []
           \<or> (\<exists>t. Some (js ''not json'') = Some t \<and> JSON_parse t = None)"
    by (simp add: not_json_malformed)
  note t = load_absent_or_malformed [OF h, of browser]
  from t [THEN conjunct1] t [THEN conjunct2, THEN conjunct2, THEN conjunct1] not_json_malformed
  show ?thesis by (intro conjI)
qed

text \<open>
  C5, as stated, fails for a stored text that is valid JSON but not the text of a Note
  array: the text \<^verbatim>\<open>null\<close> parses, \<^verbatim>\<open>loadNotes\<close> returns \<^verbatim>\<open>null\<close>
  rather than an empty collection, and the hook raises when it reads its length.
\<close>

theorem load_null_raises:
  "JSON_parse (js ''null'') = Some JNull
   \<and> as_notes JNull = None
   \<and> loadNotes browser (Some (js ''null'')) = JNull
   \<and> onMounted browser (setup_state (Some (js ''null''))) = TypeError"
proof -
  have p: "JSON_parse (js ''null'') = Some JNull" by (simp add: json_eval)
  have l: "loadNotes browser (Some (js ''null'')) = JNull"
    by (simp add: loadNotes_def isClient_browser p) (simp add: js_def)
  have "onMounted browser (setup_state (Some (js ''null''))) = TypeError"
    by (simp add: onMounted_def isClient_browser setup_state_def l)
  with p l show ?thesis by simp
qed

text \<open>
  C1, as the code has it. With a current note, an edit puts the edited note (the new
  title and body, the new time stamp) in the place of the current note in
  \<^verbatim>\<open>notes\<close>, notifies the deep watcher if that changed anything, and sets
  \<^verbatim>\<open>dirty\<close>; the handler itself writes nothing to the store. When the watcher runs
  after the handler, with a client, it stores the collection that holds the edited
  note; so a store that held the previous snapshot differs from it after any edit that
  changes the title, the body or the time stamp, without any \<^verbatim>\<open>saveCurrentNote\<close>.
\<close>

theorem edit_then_watcher:
  assumes "currentNote s = Some cn"
  shows "\<exists>idx. findIndex (\<lambda>n. id_note n = id_note cn) (notes s) = Some idx
           \<and> idx < length (notes s) \<and> notes s ! idx = cn
           \<and> edit t b now s =
               s\<lparr>notes := (notes s)[idx := edited t b now cn],
                 triggered := (triggered s \<or> edited t b now cn \<noteq> cn),
                 dirty := True\<rparr>
           \<and> storage (flush e (edit t b now s)) =
               (if (triggered s \<or> edited t b now cn \<noteq> cn) \<and> isClient e
                then Some (JSON_stringify ((notes s)[idx := edited t b now cn]))
                else storage s)
           \<and> (isClient e \<and> storage s = Some (JSON_stringify (notes s))
                \<and> edited t b now cn \<noteq> cn \<longrightarrow>
               storage (flush e (edit t b now s)) \<noteq> storage s)
           \<and> (edited t b now cn = cn \<longleftrightarrow>
                 (case t of None \<Rightarrow> True | Some x \<Rightarrow> x = title cn)
               \<and> (case b of None \<Rightarrow> True | Some y \<Rightarrow> y = body cn) \<and> now = updated cn)"
proof -
  from currentNote_SomeD [OF assms]
  obtain idx where c: "currentNoteId s = Some (id_note cn)"
    and i: "findIndex (\<lambda>n. Some (id_note n) = currentNoteId s) (notes s) = Some idx"
      "idx < length (notes s)" "notes s ! idx = cn"
    by blast
  from i(1) have idx: "findIndex (\<lambda>n. id_note n = id_note cn) (notes s) = Some idx"
    by (simp add: c)
  note ex = edit_exact [OF assms idx, of t b now]
  have fl: "storage (flush e (edit t b now s)) =
               (if (triggered s \<or> edited t b now cn \<noteq> cn) \<and> isClient e
                then Some (JSON_stringify ((notes s)[idx := edited t b now cn]))
                else storage s)"
    by (simp add: flush_storage ex)
  have diff: "isClient e \<and> storage s = Some (JSON_stringify (notes s))
                \<and> edited t b now cn \<noteq> cn \<longrightarrow>
               storage (flush e (edit t b now s)) \<noteq> storage s"
  proof
    assume a: "isClient e \<and> storage s = Some (JSON_stringify (notes s))
                \<and> edited t b now cn \<noteq> cn"
    have "(notes s)[idx := edited t b now cn] ! idx = edited t b now cn"
      using i(2) by simp
    with a i(3) have "(notes s)[idx := edited t b now cn] \<noteq> notes s" by auto
    then have "JSON_stringify ((notes s)[idx := edited t b now cn]) \<noteq> JSON_stringify (notes s)"
      using JSON_stringify_inj by blast
    with a show "storage (flush e (edit t b now s)) \<noteq> storage s"
      by (simp add: fl)
  qed
  from idx i(2,3) ex fl diff edited_eq_iff [of t b now cn] show ?thesis by blast
qed

theorem edit_then_watcher_witness:
  "currentNote one_note = Some (new_note first_input)
   \<and> notes (edit (Some (js ''X'')) None 1700000000005 one_note)
       = [edited (Some (js ''X'')) None 1700000000005 (new_note first_input)]
   \<and> dirty (edit (Some (js ''X'')) None 1700000000005 one_note) = True
   \<and> storage (edit (Some (js ''X'')) None 1700000000005 one_note) = storage one_note
   \<and> storage (flush browser (edit (Some (js ''X'')) None 1700000000005 one_note))
       = Some (JSON_stringify [edited (Some (js ''X'')) None 1700000000005 (new_note first_input)])
   \<and> title (edited (Some (js ''X'')) None 1700000000005 (new_note first_input)) = js ''X''"
proof -
  let ?c' = "edited (Some (js ''X'')) None 1700000000005 (new_note first_input)"
  note h = currentNote_one_note
  from edit_then_watcher [OF h, of "Some (js ''X'')" None 1700000000005 browser]
  obtain idx where i: "findIndex (\<lambda>n. id_note n = id_note (new_note first_input)) (notes one_note)
                        = Some idx"
    and ed: "edit (Some (js ''X'')) None 1700000000005 one_note =
               one_note\<lparr>notes := (notes one_note)[idx := ?c'],
                 triggered := (triggered one_note \<or> ?c' \<noteq> new_note first_input),
                 dirty := True\<rparr>"
    and fl: "storage (flush browser (edit (Some (js ''X'')) None 1700000000005 one_note)) =
               (if (triggered one_note \<or> ?c' \<noteq> new_note first_input) \<and> isClient browser
                then Some (JSON_stringify ((notes one_note)[idx := ?c']))
                else storage one_note)"
    by blast
  from i have idx: "idx = 0" by (simp add: one_note_eval)
  have t: "triggered one_note" by (simp add: one_note_eval)
  have n: "notes one_note = [new_note first_input]" by (simp add: one_note_eval)
  have "title ?c' = js ''X''" by (simp add: edited_def)
  with h ed fl idx t n isClient_browser show ?thesis by simp
qed

text \<open>
  C1, as stated, fails: in the example session the title of the current note is edited
  and the watcher runs; the store no longer holds what it held before the edit, although
  \<^verbatim>\<open>saveCurrentNote\<close> was not called.
\<close>

theorem edit_persisted_before_save:
  "currentNote one_note \<noteq> None
   \<and> storage (flush browser (edit (Some (js ''X'')) None 1700000000005 one_note))
       \<noteq> storage one_note"
proof -
  let ?s' = "edit (Some (js ''X'')) None 1700000000005 one_note"
  note h = currentNote_one_note
  from edit_effect(3) [OF h, of "Some (js ''X'')" None 1700000000005]
  have "\<exists>c'. currentNote ?s' = Some c' \<and> title c' = js ''X''" by simp
  moreover have "js ''X'' \<noteq> title (new_note first_input)" by (simp add: title_first js_def)
  ultimately have "currentNote ?s' \<noteq> Some (new_note first_input)" by auto
  with h have ch: "notes ?s' \<noteq> notes one_note" by (rule edit_changes_notes)
  then have "triggered ?s'" using edit_effect(4) [OF h] by blast
  with isClient_browser have "storage (flush browser ?s') = Some (JSON_stringify (notes ?s'))"
    by (rule flush_triggered)
  moreover have "storage one_note = Some (JSON_stringify (notes one_note))"
    by (simp add: one_note_eval)
  moreover from ch have "JSON_stringify (notes ?s') \<noteq> JSON_stringify (notes one_note)"
    using JSON_stringify_inj by blast
  ultimately have "storage (flush browser ?s') \<noteq> storage one_note" by simp
  with h show ?thesis by simp
qed

text \<open>
  C2, as the code has it. When \<^verbatim>\<open>createNewNote\<close> goes ahead, the new note has an
  empty title and body, \<^verbatim>\<open>created\<close> is the reading of the clock taken for it and
  \<^verbatim>\<open>updated\<close> the reading taken next (two calls of \<^verbatim>\<open>Date.now()\<close>); the
  note is put in front of the notes, the collection is stored when a client is present,
  the note becomes the current one and \<^verbatim>\<open>dirty\<close> is cleared. From an empty
  collection the result is the one new note.
\<close>

theorem createNewNote_effect:
  assumes "dirty s \<longrightarrow> confirm c"
  shows "notes (createNewNote e c s) = new_note c # notes s
       \<and> title (new_note c) = [] \<and> body (new_note c) = []
       \<and> created (new_note c) = now_created c \<and> updated (new_note c) = now_updated c
       \<and> (created (new_note c) = updated (new_note c) \<longleftrightarrow> now_created c = now_updated c)
       \<and> (isClient e \<longrightarrow> storage (createNewNote e c s)
                              = Some (JSON_stringify (notes (createNewNote e c s))))
       \<and> (\<not> isClient e \<longrightarrow> storage (createNewNote e c s) = storage s)
       \<and> currentNoteId (createNewNote e c s) = Some (id_note (new_note c))
       \<and> currentNote (createNewNote e c s) = Some (new_note c)
       \<and> dirty (createNewNote e c s) = False
       \<and> (notes s = [] \<longrightarrow> notes (createNewNote e c s) = [new_note c])"
proof -
  note f = createNewNote_ahead_fields [OF assms, of e]
  have cur: "currentNote (createNewNote e c s) = Some (new_note c)"
    by (rule currentNote_head [OF new_note_id_nonempty]) (simp_all add: f)
  show ?thesis
    by (simp add: f cur) (simp add: new_note_def)
qed

theorem createNewNote_effect_witness:
  "\<not> dirty (setup_state None)
   \<and> notes (createNewNote browser first_input (setup_state None)) = [new_note first_input]
   \<and> title (new_note first_input) = [] \<and> body (new_note first_input) = []
   \<and> currentNoteId (createNewNote browser first_input (setup_state None))
       = Some (id_note (new_note first_input))
   \<and> dirty (createNewNote browser first_input (setup_state None)) = False"
proof -
  have d: "\<not> dirty (setup_state None)" by (simp add: setup_state_def)
  then have h: "dirty (setup_state None) \<longrightarrow> confirm first_input" by simp
  have n: "notes (setup_state None) = []" by (simp add: setup_state_def)
  from createNewNote_effect [OF h, of browser] d n show ?thesis by simp
qed

text \<open>
  C2, as stated, fails where the clock advances between the two readings: the note
  created from the second round of input has \<^verbatim>\<open>created\<close> one millisecond before
  \<^verbatim>\<open>updated\<close>.
\<close>

theorem created_differs_from_updated:
  "\<not> dirty one_note
   \<and> created (hd (notes (createNewNote browser second_input one_note)))
       \<noteq> updated (hd (notes (createNewNote browser second_input one_note)))"
proof -
  have d: "\<not> dirty one_note" by (simp add: one_note_eval)
  then have h: "dirty one_note \<longrightarrow> confirm second_input" by simp
  from createNewNote_ahead_fields(1) [OF h, of browser] d show ?thesis
    by (simp add: new_note_def second_input_def)
qed

end
